theory Spec2Isabelle
  imports Main "HOL-Library.Word"
begin

section \<open>Bit strings\<close>

text \<open>
  The codec handles bits as Python strings of the characters \<open>0\<close> and \<open>1\<close>.
  File bytes are the integers \<open>0..255\<close> of \<^verbatim>\<open>list(f.read())\<close>.
\<close>

type_synonym byte = "8 word"

definition bit_char :: "nat \<Rightarrow> char" where
  "bit_char d = (if d = 0 then CHR ''0'' else CHR ''1'')"

text \<open>\<^verbatim>\<open>bin(n)[2:]\<close> for \<open>n \<ge> 0\<close>: the binary digits, most significant first; \<open>0\<close> gives \<open>''0''\<close>.\<close>

fun bin_str :: "nat \<Rightarrow> string" where
  "bin_str n = (if n < 2 then [bit_char n] else bin_str (n div 2) @ [bit_char (n mod 2)])"

declare bin_str.simps [simp del]

text \<open>\<^verbatim>\<open>s.zfill(width)\<close> on a string without sign: pads on the left, never truncates.\<close>

definition zfill :: "string \<Rightarrow> nat \<Rightarrow> string" where
  "zfill s width = replicate (width - length s) (CHR ''0'') @ s"

text \<open>util.py, \<^verbatim>\<open>to_binary_string\<close>: \<^verbatim>\<open>format(number, f'0{length}b')\<close> for \<open>number \<ge> 0\<close>.\<close>

definition to_binary_string :: "nat \<Rightarrow> nat \<Rightarrow> string" where
  "to_binary_string number len = zfill (bin_str number) len"

text \<open>\<^verbatim>\<open>int(s, 2)\<close> on a string of binary digits.\<close>

definition int_of_bin :: "string \<Rightarrow> nat" where
  "int_of_bin s = foldl (\<lambda>acc c. 2 * acc + (if c = CHR ''1'' then 1 else 0)) 0 s"

text \<open>
  \<^verbatim>\<open>int(log2(n))\<close> for \<open>n \<ge> 1\<close>, the floor of the binary logarithm: for the lengths of
  move lists the floating-point logarithm is far from any rounding that could change its
  integer part. (\<^verbatim>\<open>log2(0)\<close> raises; the callers below make that case explicit.)
\<close>

fun int_log2 :: "nat \<Rightarrow> nat" where
  "int_log2 n = (if n < 2 then 0 else Suc (int_log2 (n div 2)))"

declare int_log2.simps [simp del]

text \<open>\<^verbatim>\<open>str(n)\<close> for \<open>n \<ge> 0\<close>.\<close>

fun str_nat :: "nat \<Rightarrow> string" where
  "str_nat n = (if n < 10 then [char_of (48 + n)] else str_nat (n div 10) @ [char_of (48 + n mod 10)])"

declare str_nat.simps [simp del]

text \<open>\<^verbatim>\<open>xs.index(x)\<close>: the first position of \<open>x\<close>; \<open>None\<close> where Python raises \<^verbatim>\<open>ValueError\<close>.\<close>

fun index_of :: "'a list \<Rightarrow> 'a \<Rightarrow> nat option" where
  "index_of [] x = None"
| "index_of (y # ys) x = (if y = x then Some 0 else map_option Suc (index_of ys x))"

text \<open>
  \<^verbatim>\<open>s.split()\<close>: the maximal runs of non-whitespace characters. Characters are code points
  below 256; the whitespace among them is 9..13, 28..32, 133 and 160.
\<close>

definition is_space :: "char \<Rightarrow> bool" where
  "is_space c = (let n = (of_char c :: nat) in (9 \<le> n \<and> n \<le> 13) \<or> (28 \<le> n \<and> n \<le> 32) \<or> n = 133 \<or> n = 160)"

fun split_from :: "string \<Rightarrow> string \<Rightarrow> string list" where
  "split_from cur [] = (if cur = [] then [] else [cur])"
| "split_from cur (c # cs) =
     (if is_space c then (if cur = [] then split_from [] cs else cur # split_from [] cs)
      else split_from (cur @ [c]) cs)"

definition split_ws :: "string \<Rightarrow> string list" where
  "split_ws s = split_from [] s"

text \<open>\<^verbatim>\<open>' '.join(moves)\<close>, as \<^verbatim>\<open>get_game_moves\<close> builds the move string of one game.\<close>

fun join_sp :: "string list \<Rightarrow> string" where
  "join_sp [] = []"
| "join_sp [m] = m"
| "join_sp (m # ms) = m @ CHR '' '' # join_sp ms"

section \<open>The rules engine\<close>

text \<open>
  The chess library is not part of the repository. The codec uses it through five
  operations on a board value \<open>'b\<close> (position and history): the fresh board of
  \<^verbatim>\<open>Board()\<close> and \<^verbatim>\<open>reset()\<close>, the legal moves in generation order as UCI strings, pushing a
  move given in UCI (\<^verbatim>\<open>push_uci\<close> in encode, \<^verbatim>\<open>push(Move.from_uci(..))\<close> in decode), and the
  two draw tests. They are the fields of a record that every function below takes as its
  first argument.
\<close>

record 'b engine =
  start :: 'b
  legal_moves :: "'b \<Rightarrow> string list"
  push :: "'b \<Rightarrow> string \<Rightarrow> 'b"
  is_insufficient_material :: "'b \<Rightarrow> bool"
  can_claim_draw :: "'b \<Rightarrow> bool"

section \<open>encode\<close>

text \<open>
  The four \<^verbatim>\<open>ValueError\<close>s of chess\_storage.py: the one \<^verbatim>\<open>encode\<close> raises from its
  file-reading block (an empty file included), the one \<^verbatim>\<open>log2(0)\<close> raises inside the encode
  loop, the one the PGN headers raise when a game is emitted with a line break in the file's
  extension or name, and the one \<^verbatim>\<open>decode\<close> raises from its handler of any exception. The
  second and the third leave \<^verbatim>\<open>encode\<close> uncaught.
\<close>

datatype error = File_Error | Math_Domain_Error | Header_Error | Decode_Error

text \<open>One emitted game: the three headers and the main line (the board's move stack).\<close>

record part =
  FileType :: string
  FileName :: string
  PartNumber :: string
  mainline :: "string list"

text \<open>The local variables of the encode loop; \<open>move_stack\<close> is the board's own move stack.\<close>

record 'b enc_state =
  output_pgns :: "part list"
  file_bit_index :: nat
  chess_board :: 'b
  move_stack :: "string list"
  moves_in_current_game :: nat

record encoded =
  pgn :: "part list"
  file_name :: string
  pending_game :: bool
  game_count :: nat
  move_counts :: "nat list"

definition MAX_MOVES_PER_GAME :: nat where
  "MAX_MOVES_PER_GAME = 100"

text \<open>A Python dict as a list of items in insertion order: a key set again keeps its place.\<close>

fun dict_set :: "('k \<times> 'v) list \<Rightarrow> 'k \<Rightarrow> 'v \<Rightarrow> ('k \<times> 'v) list" where
  "dict_set [] k v = [(k, v)]"
| "dict_set ((k', v') # d) k v = (if k' = k then (k', v) # d else (k', v') # dict_set d k v)"

text \<open>Lines 68-72: the loop over \<^verbatim>\<open>enumerate(legal_moves)\<close>, with its \<^verbatim>\<open>break\<close>.\<close>

fun build_move_bits :: "nat \<Rightarrow> nat \<Rightarrow> string list \<Rightarrow> (string \<times> string) list \<Rightarrow> (string \<times> string) list" where
  "build_move_bits width index [] move_bits = move_bits"
| "build_move_bits width index (legal_move # rest) move_bits =
     (let move_binary = to_binary_string index width in
      if length move_binary > width then move_bits
      else build_move_bits width (Suc index) rest (dict_set move_bits legal_move move_binary))"

text \<open>Lines 75-83: the two-byte pool and the slice taken from it.\<close>

definition file_chunk_pool :: "byte list \<Rightarrow> nat \<Rightarrow> string" where
  "file_chunk_pool file_bytes closest_byte_index =
     concat (map (\<lambda>byte. to_binary_string (unat byte) 8) (take 2 (drop closest_byte_index file_bytes)))"

definition next_file_chunk :: "byte list \<Rightarrow> nat \<Rightarrow> nat \<Rightarrow> string" where
  "next_file_chunk file_bytes bit_index width =
     take width (drop (bit_index mod 8) (file_chunk_pool file_bytes (bit_index div 8)))"

text \<open>Lines 86-91: the first key of the dict whose value is the chunk.\<close>

fun find_move :: "(string \<times> string) list \<Rightarrow> string \<Rightarrow> string option" where
  "find_move [] chunk = None"
| "find_move ((move_uci, move_binary) # rest) chunk =
     (if move_binary = chunk then Some move_uci else find_move rest chunk)"

text \<open>Lines 63-66.\<close>

definition max_binary_length :: "'b engine \<Rightarrow> byte list \<Rightarrow> 'b enc_state \<Rightarrow> nat" where
  "max_binary_length e file_bytes st =
     min (int_log2 (length (legal_moves e (chess_board st)))) (8 * length file_bytes - file_bit_index st)"

text \<open>Lines 62-94: build the dict, take the chunk, push the matching move if there is one, advance the pointer.\<close>

definition push_chunk :: "'b engine \<Rightarrow> byte list \<Rightarrow> 'b enc_state \<Rightarrow> 'b enc_state" where
  "push_chunk e file_bytes st =
     (let w = max_binary_length e file_bytes st;
          move_bits = build_move_bits w 0 (legal_moves e (chess_board st)) [];
          chunk = next_file_chunk file_bytes (file_bit_index st) w;
          st' = (case find_move move_bits chunk of
                   None \<Rightarrow> st
                 | Some move_uci \<Rightarrow>
                     st\<lparr>chess_board := push e (chess_board st) move_uci,
                        move_stack := move_stack st @ [move_uci],
                        moves_in_current_game := Suc (moves_in_current_game st)\<rparr>)
      in st'\<lparr>file_bit_index := file_bit_index st + w\<rparr>)"

text \<open>
  \<^verbatim>\<open>pgn_board.headers[..] = value\<close> raises \<^verbatim>\<open>ValueError\<close> when the value holds a line feed or a
  carriage return. The two values that depend on the input are the extension and the base
  name of the file; the tag names and \<^verbatim>\<open>str(len(output_pgns) + 1)\<close> never make it raise.
\<close>

definition header_value_ok :: "string \<Rightarrow> bool" where
  "header_value_ok v = (CHR 0x0A \<notin> set v \<and> CHR 0x0D \<notin> set v)"

definition headers_ok :: "string \<Rightarrow> string \<Rightarrow> bool" where
  "headers_ok fname file_extension = (header_value_ok file_extension \<and> header_value_ok fname)"

text \<open>Lines 54-58 and again 108-112, once the two headers are set: emit the game and reset the board.\<close>

definition close_state :: "'b engine \<Rightarrow> string \<Rightarrow> string \<Rightarrow> 'b enc_state \<Rightarrow> 'b enc_state" where
  "close_state e fname file_extension st =
     st\<lparr>output_pgns := output_pgns st @
           [\<lparr>FileType = file_extension, FileName = fname,
             PartNumber = str_nat (length (output_pgns st) + 1), mainline = move_stack st\<rparr>],
        chess_board := start e, move_stack := [], moves_in_current_game := 0\<rparr>"

text \<open>Lines 51-58 and again 105-112: set the headers, which may raise, then emit and reset.\<close>

definition close_part :: "'b engine \<Rightarrow> string \<Rightarrow> string \<Rightarrow> 'b enc_state \<Rightarrow> error + 'b enc_state" where
  "close_part e fname file_extension st =
     (if headers_ok fname file_extension then Inr (close_state e fname file_extension st)
      else Inl Header_Error)"

text \<open>Lines 100-103 (without the end-of-file test).\<close>

definition game_over :: "'b engine \<Rightarrow> 'b \<Rightarrow> bool" where
  "game_over e board =
     (length (legal_moves e board) \<le> 1 \<or> is_insufficient_material e board \<or> can_claim_draw e board)"

text \<open>
  One pass through the body of \<^verbatim>\<open>while True\<close>. The flag of the result is \<^verbatim>\<open>eof_reached\<close>,
  on which the loop breaks; \<^verbatim>\<open>continue\<close> after a 100-move close returns it False. \<open>Inl\<close> is
  an exception that leaves the loop and \<^verbatim>\<open>encode\<close>.
\<close>

definition encode_step :: "'b engine \<Rightarrow> string \<Rightarrow> string \<Rightarrow> byte list \<Rightarrow> 'b enc_state \<Rightarrow> error + bool \<times> 'b enc_state" where
  "encode_step e fname file_extension file_bytes st =
     (if moves_in_current_game st \<ge> MAX_MOVES_PER_GAME then
        (case close_part e fname file_extension st of
           Inl err \<Rightarrow> Inl err
         | Inr st' \<Rightarrow> Inr (False, st'))
      else if legal_moves e (chess_board st) = [] then Inl Math_Domain_Error
      else
        let st1 = push_chunk e file_bytes st;
            eof_reached = (file_bit_index st1 \<ge> 8 * length file_bytes)
        in if game_over e (chess_board st1) \<or> eof_reached
           then (case close_part e fname file_extension st1 of
                   Inl err \<Rightarrow> Inl err
                 | Inr st2 \<Rightarrow> Inr (eof_reached, st2))
           else Inr (eof_reached, st1))"

partial_function (option) encode_loop :: "'b engine \<Rightarrow> string \<Rightarrow> string \<Rightarrow> byte list \<Rightarrow> 'b enc_state \<Rightarrow> (error + 'b enc_state) option" where
  "encode_loop e fname file_extension file_bytes st =
     (case encode_step e fname file_extension file_bytes st of
        Inl err \<Rightarrow> Some (Inl err)
      | Inr (eof_reached, st') \<Rightarrow>
          if eof_reached then Some (Inr st') else encode_loop e fname file_extension file_bytes st')"

declare encode_loop.simps [code]

definition initial_state :: "'b engine \<Rightarrow> 'b enc_state" where
  "initial_state e =
     \<lparr>output_pgns = [], file_bit_index = 0, chess_board = start e, move_stack = [], moves_in_current_game = 0\<rparr>"

text \<open>
  \<^verbatim>\<open>encode\<close>, on the bytes read from the file, the base name of the path and its extension.
  \<open>None\<close> is a loop that never ends.
\<close>

definition encode :: "'b engine \<Rightarrow> string \<Rightarrow> string \<Rightarrow> byte list \<Rightarrow> (error + encoded) option" where
  "encode e fname file_extension file_bytes =
     (if length file_bytes = 0 then Some (Inl File_Error)
      else case encode_loop e fname file_extension file_bytes (initial_state e) of
        None \<Rightarrow> None
      | Some (Inl err) \<Rightarrow> Some (Inl err)
      | Some (Inr st) \<Rightarrow>
          Some (Inr \<lparr>pgn = output_pgns st, file_name = fname, pending_game = True,
                     game_count = length (output_pgns st),
                     move_counts = map (\<lambda>p. length (mainline p)) (output_pgns st)\<rparr>))"

text \<open>The state at the top of the \<open>k\<close>-th pass of the loop, if the loop gets there.\<close>

fun encode_iter :: "'b engine \<Rightarrow> string \<Rightarrow> string \<Rightarrow> byte list \<Rightarrow> nat \<Rightarrow> 'b enc_state \<Rightarrow> 'b enc_state option" where
  "encode_iter e fname file_extension file_bytes 0 st = Some st"
| "encode_iter e fname file_extension file_bytes (Suc k) st =
     (case encode_step e fname file_extension file_bytes st of
        Inl err \<Rightarrow> None
      | Inr (eof_reached, st') \<Rightarrow>
          if eof_reached then None else encode_iter e fname file_extension file_bytes k st')"

definition loop_top :: "'b engine \<Rightarrow> string \<Rightarrow> string \<Rightarrow> byte list \<Rightarrow> nat \<Rightarrow> 'b enc_state option" where
  "loop_top e fname file_extension file_bytes k = encode_iter e fname file_extension file_bytes k (initial_state e)"

section \<open>decode\<close>

text \<open>The bit accumulator and the contents of the output file, which is opened for appending.\<close>

record dec_state =
  output_data :: string
  output_file :: "byte list"

text \<open>Lines 291-295.\<close>

function write_bytes :: "dec_state \<Rightarrow> dec_state" where
  "write_bytes st =
     (if length (output_data st) \<ge> 8
      then write_bytes \<lparr>output_data = drop 8 (output_data st),
                        output_file = output_file st @ [of_nat (int_of_bin (take 8 (output_data st)))]\<rparr>
      else st)"
  by pat_completeness auto
termination
  by (relation "measure (\<lambda>st. length (output_data st))") auto

declare write_bytes.simps [simp del]

text \<open>
  Lines 271-295, the moves of one game. \<open>Inl\<close> carries the state at the moment
  \<^verbatim>\<open>index\<close> raises: what was written to the file stays there.
\<close>

fun decode_moves :: "'b engine \<Rightarrow> 'b \<Rightarrow> string list \<Rightarrow> dec_state \<Rightarrow> dec_state + dec_state" where
  "decode_moves e board [] st = Inr st"
| "decode_moves e board (move_uci # rest) st =
     (let legal_move_ucis = legal_moves e board in
      case index_of legal_move_ucis move_uci of
        None \<Rightarrow> Inl st
      | Some i \<Rightarrow>
          let move_index_binary = bin_str i;
              width = int_log2 (length legal_move_ucis);
              move_binary = zfill move_index_binary width;
              st1 = st\<lparr>output_data := output_data st @ move_binary\<rparr>
          in decode_moves e (push e board move_uci) rest (write_bytes st1))"

text \<open>Lines 267-269: every game starts from a fresh board.\<close>

fun decode_games :: "'b engine \<Rightarrow> string list \<Rightarrow> dec_state \<Rightarrow> dec_state + dec_state" where
  "decode_games e [] st = Inr st"
| "decode_games e (moves # rest) st =
     (case decode_moves e (start e) (split_ws moves) st of
        Inl st' \<Rightarrow> Inl st'
      | Inr st' \<Rightarrow> decode_games e rest st')"

text \<open>
  \<^verbatim>\<open>decode\<close>: the final contents of the output file, and the value returned or the error
  raised. \<open>file0\<close> is what the file held before; \<open>metadata\<close> is the \<^verbatim>\<open>FileType\<close> header of the
  game fetched at the end, \<open>None\<close> when that request fails.
\<close>

definition decode :: "'b engine \<Rightarrow> string list \<Rightarrow> byte list \<Rightarrow> string option \<Rightarrow> byte list \<times> (error + string)" where
  "decode e moves_list file0 metadata =
     (case decode_games e moves_list \<lparr>output_data = [], output_file = file0\<rparr> of
        Inl st \<Rightarrow> (output_file st, Inl Decode_Error)
      | Inr st \<Rightarrow>
          (output_file st,
           case metadata of None \<Rightarrow> Inl Decode_Error | Some file_extension \<Rightarrow> Inr file_extension))"

section \<open>Notions used to state the properties\<close>

text \<open>A bit string: only the characters \<open>0\<close> and \<open>1\<close>.\<close>

definition is_bits :: "string \<Rightarrow> bool" where
  "is_bits s = (\<forall>c \<in> set s. c = CHR ''0'' \<or> c = CHR ''1'')"

text \<open>The whole file as one bit string, each byte as \<^verbatim>\<open>to_binary_string(byte, 8)\<close>.\<close>

definition file_bits :: "byte list \<Rightarrow> string" where
  "file_bits bs = concat (map (\<lambda>byte. to_binary_string (unat byte) 8) bs)"

text \<open>A move string that survives \<^verbatim>\<open>' '.join\<close> and \<^verbatim>\<open>split\<close>: not empty, no whitespace.\<close>

definition uci_token :: "string \<Rightarrow> bool" where
  "uci_token m = (m \<noteq> [] \<and> (\<forall>c \<in> set m. \<not> is_space c))"

text \<open>
  What the codec relies on from the rules engine: the starting position offers at least
  two moves, no position lists a move twice, and no position offers 256 moves or more
  (chess never offers more than 218).
\<close>

definition engine_ok :: "'b engine \<Rightarrow> bool" where
  "engine_ok e = (2 \<le> length (legal_moves e (start e)) \<and>
     (\<forall>b. distinct (legal_moves e b) \<and> length (legal_moves e b) < 256))"

definition uci_ok :: "'b engine \<Rightarrow> bool" where
  "uci_ok e = (\<forall>b. \<forall>m \<in> set (legal_moves e b). uci_token m)"

text \<open>The same conditions at one state of the loop, with the weaker bound that one pass needs.\<close>

definition step_ok :: "'b engine \<Rightarrow> byte list \<Rightarrow> 'b enc_state \<Rightarrow> bool" where
  "step_ok e file_bytes st =
     (let ms = legal_moves e (chess_board st) in
      moves_in_current_game st < MAX_MOVES_PER_GAME \<and> file_bit_index st < 8 * length file_bytes \<and>
      2 \<le> length ms \<and> length ms < 1024 \<and> distinct ms)"

text \<open>The move whose ordinal index is the number the next chunk of the file spells.\<close>

definition selected_move :: "'b engine \<Rightarrow> byte list \<Rightarrow> 'b enc_state \<Rightarrow> string" where
  "selected_move e file_bytes st =
     legal_moves e (chess_board st) !
       int_of_bin (next_file_chunk file_bytes (file_bit_index st) (max_binary_length e file_bytes st))"

text \<open>Every move of a game is among the legal moves of the position it is played in.\<close>

fun valid_line :: "'b engine \<Rightarrow> 'b \<Rightarrow> string list \<Rightarrow> bool" where
  "valid_line e board [] = True"
| "valid_line e board (m # ms) = (m \<in> set (legal_moves e board) \<and> valid_line e (push e board m) ms)"

text \<open>The bits \<^verbatim>\<open>decode\<close> appends for the moves of one game, and for a list of games.\<close>

fun line_bits :: "'b engine \<Rightarrow> 'b \<Rightarrow> string list \<Rightarrow> string" where
  "line_bits e board [] = []"
| "line_bits e board (m # ms) =
     (case index_of (legal_moves e board) m of
        None \<Rightarrow> []
      | Some i \<Rightarrow> zfill (bin_str i) (int_log2 (length (legal_moves e board))) @ line_bits e (push e board m) ms)"

definition games_bits :: "'b engine \<Rightarrow> string list \<Rightarrow> string" where
  "games_bits e moves_list = concat (map (\<lambda>moves. line_bits e (start e) (split_ws moves)) moves_list)"

definition parts_bits :: "'b engine \<Rightarrow> part list \<Rightarrow> string" where
  "parts_bits e ps = concat (map (\<lambda>p. line_bits e (start e) (mainline p)) ps)"

text \<open>The \<^verbatim>\<open>PartNumber\<close> headers are \<open>1, 2, 3, ...\<close> in order.\<close>

definition numbered :: "part list \<Rightarrow> bool" where
  "numbered ps = (map PartNumber ps = map str_nat [1..<Suc (length ps)])"

text \<open>What holds at the top of every pass of the encode loop, and the quantity each pass decreases.\<close>

definition enc_inv :: "'b engine \<Rightarrow> byte list \<Rightarrow> 'b enc_state \<Rightarrow> bool" where
  "enc_inv e bs st =
     (file_bit_index st < 8 * length bs \<and> 2 \<le> length (legal_moves e (chess_board st)) \<and>
      moves_in_current_game st \<le> MAX_MOVES_PER_GAME \<and>
      moves_in_current_game st = length (move_stack st) \<and> numbered (output_pgns st))"

definition enc_measure :: "byte list \<Rightarrow> 'b enc_state \<Rightarrow> nat" where
  "enc_measure bs st =
     2 * (8 * length bs - file_bit_index st) + (if moves_in_current_game st \<ge> MAX_MOVES_PER_GAME then 1 else 0)"

text \<open>
  The encoder's games seen by the decoder: the board is the replay of the move stack, all
  games are legal, and decoding the closed games and the running one gives the bits \<open>S\<close>.
\<close>

definition dec_rel :: "'b engine \<Rightarrow> 'b enc_state \<Rightarrow> string \<Rightarrow> bool" where
  "dec_rel e st S =
     (chess_board st = foldl (push e) (start e) (move_stack st) \<and>
      valid_line e (start e) (move_stack st) \<and>
      (\<forall>p \<in> set (output_pgns st). valid_line e (start e) (mainline p)) \<and>
      parts_bits e (output_pgns st) @ line_bits e (start e) (move_stack st) = S)"

text \<open>
  The sum over the moves of a game, and of a list of games, of the width
  \<open>floor(log2(|legal moves|))\<close> of the position each move is played in.
\<close>

fun line_width :: "'b engine \<Rightarrow> 'b \<Rightarrow> string list \<Rightarrow> nat" where
  "line_width e board [] = 0"
| "line_width e board (m # ms) = int_log2 (length (legal_moves e board)) + line_width e (push e board m) ms"

definition total_width :: "'b engine \<Rightarrow> string list \<Rightarrow> nat" where
  "total_width e moves_list = sum_list (map (\<lambda>moves. line_width e (start e) (split_ws moves)) moves_list)"

text \<open>
  Every move of the game is legal where it is played, the width there is at least 1, and
  the ordinal index of the move is below \<open>2 ^ width\<close>: the moves \<^verbatim>\<open>encode\<close> can choose.
\<close>

fun addressable :: "'b engine \<Rightarrow> 'b \<Rightarrow> string list \<Rightarrow> bool" where
  "addressable e board [] = True"
| "addressable e board (m # ms) =
     (case index_of (legal_moves e board) m of
        None \<Rightarrow> False
      | Some i \<Rightarrow> 0 < int_log2 (length (legal_moves e board)) \<and> i < 2 ^ int_log2 (length (legal_moves e board)) \<and>
                  addressable e (push e board m) ms)"

text \<open>
  The conditions under which one pass of the loop emits a game, in the words of the
  specification: the running game has 100 moves, or a move is pushed and the position
  after it has at most one legal move, insufficient material or a claimable draw, or a
  move is pushed and the end of the file is reached.
\<close>

definition part_closes :: "'b engine \<Rightarrow> byte list \<Rightarrow> 'b enc_state \<Rightarrow> bool" where
  "part_closes e file_bytes st =
     (moves_in_current_game st = MAX_MOVES_PER_GAME \<or>
      moves_in_current_game st < MAX_MOVES_PER_GAME \<and>
        (let board' = push e (chess_board st) (selected_move e file_bytes st) in
         length (legal_moves e board') \<le> 1 \<or> is_insufficient_material e board' \<or> can_claim_draw e board' \<or>
         8 * length file_bytes \<le> file_bit_index st + max_binary_length e file_bytes st))"

text \<open>
  A position whose width is 4: between 16 and 31 legal moves, none listed twice. And a
  position where neither draw test of the close condition fires.
\<close>

definition width_four :: "'b engine \<Rightarrow> 'b \<Rightarrow> bool" where
  "width_four e board =
     (distinct (legal_moves e board) \<and> 16 \<le> length (legal_moves e board) \<and> length (legal_moves e board) < 32)"

definition no_draw :: "'b engine \<Rightarrow> 'b \<Rightarrow> bool" where
  "no_draw e board = (\<not> is_insufficient_material e board \<and> \<not> can_claim_draw e board)"

section \<open>A rules engine for running the codec\<close>

text \<open>
  A small engine on which the functions above can be evaluated: the board is the list of
  the moves pushed so far, every position offers the same moves, and no draw is ever
  reported.
\<close>

definition fixed_engine :: "string list \<Rightarrow> (string list) engine" where
  "fixed_engine ms =
     \<lparr>start = [], legal_moves = (\<lambda>_. ms), push = (\<lambda>b m. b @ [m]),
      is_insufficient_material = (\<lambda>_. False), can_claim_draw = (\<lambda>_. False)\<rparr>"

text \<open>The twenty moves of the chess starting position, in UCI.\<close>

definition opening_moves :: "string list" where
  "opening_moves =
     [''g1h3'', ''g1f3'', ''b1c3'', ''b1a3'', ''h2h3'', ''g2g3'', ''f2f3'', ''e2e3'', ''d2d3'', ''c2c3'',
      ''b2b3'', ''a2a3'', ''h2h4'', ''g2g4'', ''f2f4'', ''e2e4'', ''d2d4'', ''c2c4'', ''b2b4'', ''a2a4'']"

section \<open>Lemmas\<close>

lemma is_bits_simps [simp]:
  "is_bits []" "is_bits (c # s) = ((c = CHR ''0'' \<or> c = CHR ''1'') \<and> is_bits s)"
  "is_bits (s @ t) = (is_bits s \<and> is_bits t)" "is_bits (replicate k (CHR ''0''))"
  by (auto simp: is_bits_def)

lemma bit_char_cases [simp]: "bit_char d = CHR ''0'' \<or> bit_char d = CHR ''1''"
  by (simp add: bit_char_def)

lemma is_bits_take: "is_bits s \<Longrightarrow> is_bits (take k s)"
  by (auto simp: is_bits_def dest: in_set_takeD)

lemma is_bits_drop: "is_bits s \<Longrightarrow> is_bits (drop k s)"
  by (auto simp: is_bits_def dest: in_set_dropD)

lemma is_bits_bin_str: "is_bits (bin_str n)"
  by (induction n rule: bin_str.induct) (subst bin_str.simps, simp)

lemma is_bits_zfill: "is_bits s \<Longrightarrow> is_bits (zfill s w)"
  by (simp add: zfill_def)

lemma is_bits_to_binary_string: "is_bits (to_binary_string n w)"
  by (simp add: to_binary_string_def is_bits_zfill is_bits_bin_str)

lemma bin_str_nonempty: "bin_str n \<noteq> []"
  by (subst bin_str.simps) simp

lemma length_bin_str_le: "0 < w \<Longrightarrow> (length (bin_str n) \<le> w) = (n < 2 ^ w)"
proof (induction n arbitrary: w rule: bin_str.induct)
  case (1 n)
  show ?case
  proof (cases "n < 2")
    case True
    have "(2::nat) ^ 1 \<le> 2 ^ w" using 1(2) by (intro power_increasing) auto
    then have "n < 2 ^ w" using True by simp
    then show ?thesis using True 1(2) by (subst bin_str.simps) simp
  next
    case False
    obtain v where w: "w = Suc v" using 1(2) by (cases w) auto
    show ?thesis
    proof (cases "v = 0")
      case True
      show ?thesis using False w True bin_str_nonempty[of "n div 2"] by (subst bin_str.simps) simp
    next
      case v: False
      have "(length (bin_str (n div 2)) \<le> v) = (n div 2 < 2 ^ v)"
        using 1(1)[OF False, of v] v by simp
      moreover have "(n div 2 < 2 ^ v) = (n < 2 ^ Suc v)" by (simp add: less_mult_imp_div_less div_less_iff_less_mult) auto
      ultimately show ?thesis using False w by (subst bin_str.simps) simp
    qed
  qed
qed

lemma int_of_bin_Nil [simp]: "int_of_bin [] = 0"
  by (simp add: int_of_bin_def)

lemma int_of_bin_snoc [simp]: "int_of_bin (s @ [c]) = 2 * int_of_bin s + (if c = CHR ''1'' then 1 else 0)"
  by (simp add: int_of_bin_def)

lemma int_of_bin_single [simp]: "int_of_bin [c] = (if c = CHR ''1'' then 1 else 0)"
  by (simp add: int_of_bin_def)

lemma int_of_bin_bit_char: "d < 2 \<Longrightarrow> (if bit_char d = CHR ''1'' then 1 else 0) = d"
  by (auto simp: bit_char_def)

lemma int_of_bin_bin_str: "int_of_bin (bin_str n) = n"
proof (induction n rule: bin_str.induct)
  case (1 n)
  show ?case
  proof (cases "n < 2")
    case True
    have "int_of_bin ([] @ [bit_char n]) = n" using True by (subst int_of_bin_snoc) (auto simp: bit_char_def)
    then show ?thesis using True by (subst bin_str.simps) simp
  next
    case False
    have "int_of_bin (bin_str (n div 2) @ [bit_char (n mod 2)]) = 2 * (n div 2) + n mod 2"
      using 1[OF False] by (subst int_of_bin_snoc) (simp add: int_of_bin_bit_char)
    then show ?thesis using False by (subst bin_str.simps) simp
  qed
qed

lemma int_of_bin_zeros: "int_of_bin (replicate k (CHR ''0'') @ s) = int_of_bin s"
proof -
  have "foldl (\<lambda>acc c. 2 * acc + (if c = CHR ''1'' then 1 else 0)) (0::nat) (replicate k (CHR ''0'')) = 0"
    by (induction k) auto
  then show ?thesis by (simp add: int_of_bin_def)
qed

lemma int_of_bin_to_binary_string [simp]: "int_of_bin (to_binary_string n w) = n"
  by (simp add: to_binary_string_def zfill_def int_of_bin_zeros int_of_bin_bin_str)

lemma to_binary_string_inj: "to_binary_string i w = to_binary_string j w \<Longrightarrow> i = j"
  by (metis int_of_bin_to_binary_string)

lemma length_to_binary_string: "length (to_binary_string n w) = max w (length (bin_str n))"
  by (simp add: to_binary_string_def zfill_def)

lemma length_to_binary_string_le: "(length (to_binary_string n w) \<le> w) = (0 < w \<and> n < 2 ^ w)"
proof (cases "w = 0")
  case True
  then show ?thesis using bin_str_nonempty[of n] by (simp add: length_to_binary_string)
next
  case False
  then show ?thesis using length_bin_str_le[of w n] by (auto simp: length_to_binary_string)
qed

lemma length_to_binary_string_eq: "0 < w \<Longrightarrow> n < 2 ^ w \<Longrightarrow> length (to_binary_string n w) = w"
  using length_to_binary_string_le[of n w] by (simp add: length_to_binary_string)

lemma to_binary_string_double:
  assumes "b < 2" "0 < w"
  shows "to_binary_string (2 * a + b) (Suc w) = to_binary_string a w @ [bit_char b]"
proof (cases "a = 0")
  case True
  have "bin_str b = [bit_char b]" using assms by (subst bin_str.simps) simp
  moreover have "bin_str 0 = [CHR ''0'']" by (subst bin_str.simps) (simp add: bit_char_def)
  moreover have "replicate (w - Suc 0) (CHR ''0'') @ [CHR ''0''] = replicate w (CHR ''0'')"
    using assms(2) by (cases w) (simp_all add: replicate_append_same)
  ultimately show ?thesis using True by (simp add: to_binary_string_def zfill_def)
next
  case False
  then have "\<not> 2 * a + b < 2" by simp
  then have "bin_str (2 * a + b) = bin_str a @ [bit_char b]"
    using assms(1) by (subst bin_str.simps) simp
  then show ?thesis by (simp add: to_binary_string_def zfill_def)
qed

lemma int_of_bin_less: "int_of_bin s < 2 ^ length s"
  by (induction s rule: rev_induct) auto

lemma to_binary_string_int_of_bin:
  "is_bits s \<Longrightarrow> s \<noteq> [] \<Longrightarrow> to_binary_string (int_of_bin s) (length s) = s"
proof (induction s rule: rev_induct)
  case Nil
  then show ?case by simp
next
  case (snoc c s)
  let ?b = "(if c = CHR ''1'' then 1 else 0) :: nat"
  have c: "bit_char ?b = c" using snoc.prems(1) by (auto simp: bit_char_def)
  show ?case
  proof (cases "s = []")
    case True
    have "bin_str ?b = [bit_char ?b]" by (subst bin_str.simps) simp
    then show ?thesis using True c by (simp add: to_binary_string_def zfill_def)
  next
    case False
    have "to_binary_string (2 * int_of_bin s + ?b) (Suc (length s)) = to_binary_string (int_of_bin s) (length s) @ [bit_char ?b]"
      using False by (intro to_binary_string_double) auto
    then show ?thesis using snoc False c by simp
  qed
qed

lemma zfill_wider:
  "length (bin_str n) \<le> w \<Longrightarrow> w \<le> W \<Longrightarrow> zfill (bin_str n) W = replicate (W - w) (CHR ''0'') @ to_binary_string n w"
  by (simp add: to_binary_string_def zfill_def replicate_add[symmetric])

lemma int_log2_bounds: "0 < n \<Longrightarrow> 2 ^ int_log2 n \<le> n \<and> n < 2 ^ Suc (int_log2 n)"
proof (induction n rule: int_log2.induct)
  case (1 n)
  show ?case
  proof (cases "n < 2")
    case True
    then show ?thesis using 1(2) by (subst (1 2) int_log2.simps) simp
  next
    case False
    then have "2 ^ int_log2 (n div 2) \<le> n div 2 \<and> n div 2 < 2 ^ Suc (int_log2 (n div 2))"
      using 1(1) by simp
    then show ?thesis using False by (subst (1 2) int_log2.simps) auto
  qed
qed

lemma int_log2_unique: "2 ^ k \<le> n \<Longrightarrow> n < 2 ^ Suc k \<Longrightarrow> int_log2 n = k"
proof -
  assume a: "2 ^ k \<le> n" "n < 2 ^ Suc k"
  then have pos: "0 < n" by (metis less_le_trans zero_less_numeral zero_less_power)
  note b = int_log2_bounds[OF pos]
  have "(2::nat) ^ k < 2 ^ Suc (int_log2 n)" using a b by linarith
  then have "k < Suc (int_log2 n)" by (rule power_less_imp_less_exp[rotated]) simp
  moreover have "(2::nat) ^ int_log2 n < 2 ^ Suc k" using a b by linarith
  then have "int_log2 n < Suc k" by (rule power_less_imp_less_exp[rotated]) simp
  ultimately show ?thesis by simp
qed

lemma int_log2_pos: "2 \<le> n \<Longrightarrow> 0 < int_log2 n"
  by (subst int_log2.simps) simp

subsection \<open>dict\<close>

lemma dict_set_fresh: "k \<notin> fst ` set d \<Longrightarrow> dict_set d k v = d @ [(k, v)]"
  by (induction d) auto

lemma build_move_bits_distinct:
  assumes "0 < w" "distinct ms" "set ms \<inter> fst ` set acc = {}"
  shows "build_move_bits w i ms acc =
         acc @ map (\<lambda>j. (ms ! j, to_binary_string (i + j) w)) [0..<min (2 ^ w - i) (length ms)]"
  using assms(2,3)
proof (induction ms arbitrary: i acc)
  case Nil
  then show ?case by simp
next
  case (Cons m ms)
  show ?case
  proof (cases "i < 2 ^ w")
    case False
    then have "\<not> length (to_binary_string i w) \<le> w" by (simp add: length_to_binary_string_le)
    then show ?thesis using False by simp
  next
    case True
    then have len: "length (to_binary_string i w) \<le> w" using assms(1) by (simp add: length_to_binary_string_le)
    have fresh: "m \<notin> fst ` set acc" using Cons.prems by auto
    have disj: "set ms \<inter> fst ` set (acc @ [(m, to_binary_string i w)]) = {}"
      using Cons.prems by auto
    have d: "distinct ms" using Cons.prems by simp
    have k: "min (2 ^ w - i) (length (m # ms)) = Suc (min (2 ^ w - Suc i) (length ms))"
      using True by auto
    have "build_move_bits w i (m # ms) acc = build_move_bits w (Suc i) ms (acc @ [(m, to_binary_string i w)])"
      using len fresh by (simp add: dict_set_fresh)
    also have "\<dots> = (acc @ [(m, to_binary_string i w)]) @
        map (\<lambda>j. (ms ! j, to_binary_string (Suc i + j) w)) [0..<min (2 ^ w - Suc i) (length ms)]"
      by (rule Cons.IH[OF d disj])
    also have "\<dots> = acc @ map (\<lambda>j. ((m # ms) ! j, to_binary_string (i + j) w)) [0..<min (2 ^ w - i) (length (m # ms))]"
      unfolding k by (simp add: upt_conv_Cons map_Suc_upt[symmetric] del: upt_Suc)
    finally show ?thesis .
  qed
qed

lemma build_move_bits_eq:
  assumes "0 < w" "distinct ms" "2 ^ w \<le> length ms"
  shows "build_move_bits w 0 ms [] = map (\<lambda>i. (ms ! i, to_binary_string i w)) [0..<2 ^ w]"
  using build_move_bits_distinct[OF assms(1,2), of "[]" 0] assms(3) by (simp add: min_def)

lemma build_move_bits_zero_width: "build_move_bits 0 i ms acc = acc"
proof (cases ms)
  case Nil
  then show ?thesis by simp
next
  case (Cons m ms')
  have "to_binary_string i 0 \<noteq> []" by (simp add: to_binary_string_def zfill_def bin_str_nonempty)
  then show ?thesis using Cons by simp
qed

lemma find_move_append:
  "find_move (xs @ ys) chunk = (case find_move xs chunk of Some m \<Rightarrow> Some m | None \<Rightarrow> find_move ys chunk)"
  by (induction xs) auto

lemma find_move_None: "(find_move xs chunk = None) = (chunk \<notin> snd ` set xs)"
  by (induction xs chunk rule: find_move.induct) auto

lemma find_move_table:
  assumes "c < k"
  shows "find_move (map (\<lambda>i. (ms ! i, to_binary_string i w)) [0..<k]) (to_binary_string c w) = Some (ms ! c)"
  using assms
proof (induction k)
  case 0
  then show ?case by simp
next
  case (Suc k)
  show ?case
  proof (cases "c < k")
    case True
    then show ?thesis using Suc.IH by (simp add: find_move_append)
  next
    case False
    then have ck: "c = k" using Suc.prems by simp
    have "find_move (map (\<lambda>i. (ms ! i, to_binary_string i w)) [0..<k]) (to_binary_string k w) = None"
      by (auto simp: find_move_None dest: to_binary_string_inj)
    then show ?thesis using ck by (simp add: find_move_append)
  qed
qed

lemma find_move_chunk:
  assumes "0 < w" "distinct ms" "2 ^ w \<le> length ms" "is_bits chunk" "length chunk = w"
  shows "find_move (build_move_bits w 0 ms []) chunk = Some (ms ! int_of_bin chunk)"
proof -
  have ne: "chunk \<noteq> []" using assms(1,5) by auto
  have c: "to_binary_string (int_of_bin chunk) w = chunk"
    using to_binary_string_int_of_bin[OF assms(4) ne] assms(5) by simp
  have lt: "int_of_bin chunk < 2 ^ w" using int_of_bin_less[of chunk] assms(5) by simp
  show ?thesis
    using find_move_table[OF lt, of ms w] c by (simp add: build_move_bits_eq[OF assms(1,2,3)])
qed

lemma find_move_wrong_length:
  assumes "0 < w" "distinct ms" "2 ^ w \<le> length ms" "length chunk \<noteq> w"
  shows "find_move (build_move_bits w 0 ms []) chunk = None"
proof -
  have notin: "chunk \<notin> snd ` set (map (\<lambda>i. (ms ! i, to_binary_string i w)) [0..<2 ^ w])"
  proof
    assume "chunk \<in> snd ` set (map (\<lambda>i. (ms ! i, to_binary_string i w)) [0..<2 ^ w])"
    then obtain i where "i < 2 ^ w" "chunk = to_binary_string i w" by auto
    then show False using assms(1,4) length_to_binary_string_eq[of w i] by simp
  qed
  show ?thesis
    unfolding build_move_bits_eq[OF assms(1,2,3)] find_move_None by (rule notin)
qed

subsection \<open>The bits of the file\<close>

lemma length_byte_bits [simp]: "length (to_binary_string (unat (b :: byte)) 8) = 8"
proof -
  have "unat b < 2 ^ 8" using unsigned_less[of b] by simp
  then show ?thesis by (intro length_to_binary_string_eq) auto
qed

lemma file_bits_simps [simp]:
  "file_bits [] = []" "file_bits (b # bs) = to_binary_string (unat b) 8 @ file_bits bs"
  "file_bits (xs @ ys) = file_bits xs @ file_bits ys"
  by (simp_all add: file_bits_def)

lemma length_file_bits [simp]: "length (file_bits bs) = 8 * length bs"
  by (induction bs) auto

lemma is_bits_file_bits [simp]: "is_bits (file_bits bs)"
  by (induction bs) (auto simp: is_bits_to_binary_string)

lemma drop_file_bits: "drop i (file_bits bs) = drop (i mod 8) (file_bits (drop (i div 8) bs))"
proof (induction bs arbitrary: i)
  case Nil
  then show ?case by simp
next
  case (Cons b bs)
  show ?case
  proof (cases "i < 8")
    case True
    then show ?thesis by simp
  next
    case False
    then obtain j where j: "i = 8 + j" using le_Suc_ex[of 8 i] by auto
    have "drop i (file_bits (b # bs)) = drop j (file_bits bs)" using j by simp
    also have "\<dots> = drop (j mod 8) (file_bits (drop (j div 8) bs))" by (rule Cons.IH)
    also have "\<dots> = drop (i mod 8) (file_bits (drop (i div 8) (b # bs)))"
    proof -
      have "(8 + j) div 8 = Suc (j div 8)" "(8 + j) mod 8 = j mod 8" by simp_all
      then show ?thesis using j by simp
    qed
    finally show ?thesis .
  qed
qed

lemma take_drop_two_bytes:
  assumes "off + w \<le> 16"
  shows "take w (drop off (file_bits (take 2 bs))) = take w (drop off (file_bits bs))"
proof (cases bs)
  case Nil
  then show ?thesis by simp
next
  case (Cons a as)
  show ?thesis
  proof (cases as)
    case Nil
    then show ?thesis using Cons by simp
  next
    case (Cons b rest)
    have l: "length (file_bits [a, b]) = 16" by simp
    have "file_bits bs = file_bits [a, b] @ file_bits rest" using \<open>bs = a # as\<close> Cons by simp
    moreover have "take 2 bs = [a, b]" using \<open>bs = a # as\<close> Cons by simp
    ultimately show ?thesis using assms l by (simp del: file_bits_simps length_file_bits)
  qed
qed

lemma next_file_chunk_eq:
  assumes "i mod 8 + w \<le> 16"
  shows "next_file_chunk bs i w = take w (drop i (file_bits bs))"
proof -
  have "next_file_chunk bs i w = take w (drop (i mod 8) (file_bits (take 2 (drop (i div 8) bs))))"
    by (simp add: next_file_chunk_def file_chunk_pool_def file_bits_def)
  also have "\<dots> = take w (drop (i mod 8) (file_bits (drop (i div 8) bs)))"
    by (rule take_drop_two_bytes[OF assms])
  also have "\<dots> = take w (drop i (file_bits bs))" by (simp add: drop_file_bits[symmetric])
  finally show ?thesis .
qed

lemma file_bits_inj: "file_bits xs = file_bits ys \<Longrightarrow> xs = ys"
proof (induction xs arbitrary: ys)
  case Nil
  then have "length (file_bits ys) = 0" by simp
  then show ?case by simp
next
  case (Cons x xs)
  have "length (file_bits ys) = length (file_bits (x # xs))" using Cons.prems by simp
  then obtain y ys' where ys: "ys = y # ys'" by (cases ys) auto
  have "to_binary_string (unat x) 8 = to_binary_string (unat y) 8 \<and> file_bits xs = file_bits ys'"
    using Cons.prems ys by simp
  then have "unat x = unat y" "xs = ys'" using Cons.IH by (auto dest: to_binary_string_inj)
  then show ?case using ys by (simp add: word_unat_eq_iff)
qed

lemma byte_of_bits:
  assumes "is_bits s" "length s = 8"
  shows "to_binary_string (unat (of_nat (int_of_bin s) :: byte)) 8 = s"
proof -
  have "int_of_bin s < 2 ^ 8" using int_of_bin_less[of s] assms(2) by simp
  then have "unat (of_nat (int_of_bin s) :: byte) = int_of_bin s"
    by (simp add: unat_of_nat)
  moreover have "s \<noteq> []" using assms(2) by auto
  ultimately show ?thesis using to_binary_string_int_of_bin[OF assms(1)] assms(2) by simp
qed

subsection \<open>split and join\<close>

lemma split_from_token: "\<forall>c \<in> set m. \<not> is_space c \<Longrightarrow> split_from cur (m @ rest) = split_from (cur @ m) rest"
  by (induction m arbitrary: cur) auto

lemma is_space_blank [simp]: "is_space (CHR '' '')"
  by (simp add: is_space_def)

lemma split_from_join:
  "\<forall>m \<in> set ms. uci_token m \<Longrightarrow> split_from [] (join_sp ms) = ms"
proof (induction ms rule: join_sp.induct)
  case 1
  then show ?case by simp
next
  case (2 m)
  then have "split_from [] (m @ []) = split_from ([] @ m) []"
    by (intro split_from_token) (auto simp: uci_token_def)
  then show ?case using 2 by (simp add: uci_token_def)
next
  case (3 m v va)
  have "split_from [] (m @ CHR '' '' # join_sp (v # va)) = split_from ([] @ m) (CHR '' '' # join_sp (v # va))"
    using 3(2) by (intro split_from_token) (auto simp: uci_token_def)
  then show ?case using 3 by (simp add: uci_token_def)
qed

lemma split_ws_join_sp: "\<forall>m \<in> set ms. uci_token m \<Longrightarrow> split_ws (join_sp ms) = ms"
  by (simp add: split_ws_def split_from_join)

lemma int_log2_less: "0 < n \<Longrightarrow> n < 2 ^ k \<Longrightarrow> int_log2 n < k"
proof -
  assume "0 < n" "n < 2 ^ k"
  then have "(2::nat) ^ int_log2 n < 2 ^ k" using int_log2_bounds[of n] by linarith
  then show ?thesis by (rule power_less_imp_less_exp[rotated]) simp
qed

lemma width_facts:
  assumes "file_bit_index st < 8 * length bs" "2 \<le> length (legal_moves e (chess_board st))"
  shows "0 < max_binary_length e bs st"
    and "file_bit_index st + max_binary_length e bs st \<le> 8 * length bs"
    and "2 ^ max_binary_length e bs st \<le> length (legal_moves e (chess_board st))"
    and "max_binary_length e bs st \<le> int_log2 (length (legal_moves e (chess_board st)))"
proof -
  let ?n = "length (legal_moves e (chess_board st))"
  let ?w = "max_binary_length e bs st"
  show "0 < ?w" using assms int_log2_pos[of ?n] by (simp add: max_binary_length_def)
  show "file_bit_index st + ?w \<le> 8 * length bs" using assms by (simp add: max_binary_length_def)
  show le: "?w \<le> int_log2 ?n" by (simp add: max_binary_length_def)
  have "(2::nat) ^ ?w \<le> 2 ^ int_log2 ?n" using le by (intro power_increasing) auto
  then show "2 ^ ?w \<le> ?n" using int_log2_bounds[of ?n] assms(2) by linarith
qed

lemma width_le_9:
  assumes "2 \<le> length (legal_moves e (chess_board st))" "length (legal_moves e (chess_board st)) < 1024"
  shows "max_binary_length e bs st \<le> 9"
proof -
  have "length (legal_moves e (chess_board st)) < 2 ^ 10" using assms(2) by simp
  then have "int_log2 (length (legal_moves e (chess_board st))) < 10"
    using assms(1) by (intro int_log2_less) auto
  then show ?thesis by (simp add: max_binary_length_def)
qed

lemma chunk_facts:
  assumes "step_ok e bs st"
  shows "next_file_chunk bs (file_bit_index st) (max_binary_length e bs st) =
           take (max_binary_length e bs st) (drop (file_bit_index st) (file_bits bs))"
    and "length (next_file_chunk bs (file_bit_index st) (max_binary_length e bs st)) = max_binary_length e bs st"
    and "is_bits (next_file_chunk bs (file_bit_index st) (max_binary_length e bs st))"
proof -
  let ?w = "max_binary_length e bs st"
  let ?i = "file_bit_index st"
  have ok: "?i < 8 * length bs" "2 \<le> length (legal_moves e (chess_board st))"
    "length (legal_moves e (chess_board st)) < 1024"
    using assms by (simp_all add: step_ok_def Let_def)
  have "?w \<le> 9" by (rule width_le_9[OF ok(2,3)])
  moreover have "?i mod 8 < 8" by simp
  ultimately have "?i mod 8 + ?w \<le> 16" by linarith
  then show eq: "next_file_chunk bs ?i ?w = take ?w (drop ?i (file_bits bs))"
    by (rule next_file_chunk_eq)
  show "length (next_file_chunk bs ?i ?w) = ?w"
    using width_facts(2)[OF ok(1,2)] by (simp add: eq)
  show "is_bits (next_file_chunk bs ?i ?w)"
    by (simp add: eq is_bits_take is_bits_drop)
qed

lemma selected_move_found:
  assumes "step_ok e bs st"
  shows "find_move (build_move_bits (max_binary_length e bs st) 0 (legal_moves e (chess_board st)) [])
           (next_file_chunk bs (file_bit_index st) (max_binary_length e bs st)) = Some (selected_move e bs st)"
proof -
  have ok: "file_bit_index st < 8 * length bs" "2 \<le> length (legal_moves e (chess_board st))"
    "distinct (legal_moves e (chess_board st))"
    using assms by (simp_all add: step_ok_def Let_def)
  show ?thesis
    unfolding selected_move_def
    by (rule find_move_chunk[OF width_facts(1)[OF ok(1,2)] ok(3) width_facts(3)[OF ok(1,2)]
          chunk_facts(3)[OF assms] chunk_facts(2)[OF assms]])
qed

lemma push_chunk_ok:
  assumes "step_ok e bs st"
  shows "push_chunk e bs st =
     st\<lparr>chess_board := push e (chess_board st) (selected_move e bs st),
        move_stack := move_stack st @ [selected_move e bs st],
        moves_in_current_game := Suc (moves_in_current_game st),
        file_bit_index := file_bit_index st + max_binary_length e bs st\<rparr>"
  by (simp add: push_chunk_def Let_def selected_move_found[OF assms])

lemma push_chunk_fields:
  "file_bit_index (push_chunk e bs st) = file_bit_index st + max_binary_length e bs st"
  "output_pgns (push_chunk e bs st) = output_pgns st"
  "moves_in_current_game st = length (move_stack st) \<Longrightarrow>
     moves_in_current_game (push_chunk e bs st) = length (move_stack (push_chunk e bs st))"
  "moves_in_current_game (push_chunk e bs st) \<le> Suc (moves_in_current_game st)"
  "chess_board (push_chunk e bs st) = chess_board st \<or>
     (\<exists>m. chess_board (push_chunk e bs st) = push e (chess_board st) m)"
  by (auto simp: push_chunk_def Let_def split: option.splits)

lemma close_state_fields [simp]:
  "file_bit_index (close_state e fn ext st) = file_bit_index st"
  "chess_board (close_state e fn ext st) = start e"
  "move_stack (close_state e fn ext st) = []"
  "moves_in_current_game (close_state e fn ext st) = 0"
  "output_pgns (close_state e fn ext st) = output_pgns st @
     [\<lparr>FileType = ext, FileName = fn, PartNumber = str_nat (length (output_pgns st) + 1), mainline = move_stack st\<rparr>]"
  by (simp_all add: close_state_def)

lemma close_part_ok: "headers_ok fn ext \<Longrightarrow> close_part e fn ext st = Inr (close_state e fn ext st)"
  by (simp add: close_part_def)

lemma close_part_bad: "\<not> headers_ok fn ext \<Longrightarrow> close_part e fn ext st = Inl Header_Error"
  by (simp add: close_part_def)

lemma encode_step_cap:
  "moves_in_current_game st \<ge> MAX_MOVES_PER_GAME \<Longrightarrow> headers_ok fn ext \<Longrightarrow>
     encode_step e fn ext bs st = Inr (False, close_state e fn ext st)"
  by (simp add: encode_step_def close_part_ok)

lemma encode_step_play:
  assumes "moves_in_current_game st < MAX_MOVES_PER_GAME" "legal_moves e (chess_board st) \<noteq> []"
    and "headers_ok fn ext"
  shows "encode_step e fn ext bs st =
     Inr (file_bit_index st + max_binary_length e bs st \<ge> 8 * length bs,
          if game_over e (chess_board (push_chunk e bs st)) \<or> file_bit_index st + max_binary_length e bs st \<ge> 8 * length bs
          then close_state e fn ext (push_chunk e bs st) else push_chunk e bs st)"
  using assms by (simp add: encode_step_def Let_def push_chunk_fields(1) close_part_ok)

text \<open>What a pass that returns has done, whatever the headers.\<close>

lemma encode_step_cap_eq:
  assumes "moves_in_current_game st \<ge> MAX_MOVES_PER_GAME" "encode_step e fn ext bs st = Inr (fin, s')"
  shows "encode_step e fn ext bs st = Inr (False, close_state e fn ext st)"
  using assms by (cases "headers_ok fn ext") (simp_all add: encode_step_def close_part_ok close_part_bad)

lemma encode_step_play_eq:
  assumes "moves_in_current_game st < MAX_MOVES_PER_GAME" "encode_step e fn ext bs st = Inr (fin, s')"
  shows "encode_step e fn ext bs st =
     Inr (file_bit_index st + max_binary_length e bs st \<ge> 8 * length bs,
          if game_over e (chess_board (push_chunk e bs st)) \<or> file_bit_index st + max_binary_length e bs st \<ge> 8 * length bs
          then close_state e fn ext (push_chunk e bs st) else push_chunk e bs st)"
proof (cases "headers_ok fn ext")
  case True
  have "legal_moves e (chess_board st) \<noteq> []"
    using assms by (auto simp: encode_step_def split: if_splits)
  from encode_step_play[OF assms(1) this True] show ?thesis .
next
  case False
  then show ?thesis
    using assms
    by (auto simp: encode_step_def Let_def push_chunk_fields(1) close_part_bad split: if_splits)
qed

lemma encode_step_closed_ok:
  assumes "encode_step e fn ext bs st = Inr (fin, s')"
    and "moves_in_current_game st \<ge> MAX_MOVES_PER_GAME \<or> fin"
  shows "headers_ok fn ext"
proof (rule ccontr)
  assume "\<not> headers_ok fn ext"
  then show False
    using assms
    by (auto simp: encode_step_def Let_def close_part_bad split: if_splits)
qed

lemma encode_step_bad_headers:
  assumes "\<not> headers_ok fn ext" "encode_step e fn ext bs st = Inl err" "legal_moves e (chess_board st) \<noteq> []"
  shows "err = Header_Error"
  using assms by (auto simp: encode_step_def Let_def close_part_bad split: if_splits)

subsection \<open>The loop\<close>

lemma encode_loop_ends:
  assumes "I st"
    and step: "\<And>s s'. I s \<Longrightarrow> encode_step e fn ext bs s = Inr (False, s') \<Longrightarrow> I s' \<and> (f s' :: nat) < f s"
  shows "\<exists>s. I s \<and>
           ((\<exists>err. encode_step e fn ext bs s = Inl err \<and> encode_loop e fn ext bs st = Some (Inl err)) \<or>
            (\<exists>r. encode_step e fn ext bs s = Inr (True, r) \<and> encode_loop e fn ext bs st = Some (Inr r)))"
  using assms(1)
proof (induction "f st" arbitrary: st rule: less_induct)
  case less
  show ?case
  proof (cases "encode_step e fn ext bs st")
    case (Inl err)
    then have "encode_loop e fn ext bs st = Some (Inl err)"
      by (subst encode_loop.simps) simp
    then show ?thesis using less.prems Inl by blast
  next
    case (Inr p)
    obtain fin s' where p: "p = (fin, s')" by (cases p)
    show ?thesis
    proof (cases fin)
      case True
      have "encode_loop e fn ext bs st = Some (Inr s')"
        using Inr p True by (subst encode_loop.simps) simp
      moreover have "encode_step e fn ext bs st = Inr (True, s')" using Inr p True by simp
      ultimately show ?thesis using less.prems by blast
    next
      case False
      then have st: "encode_step e fn ext bs st = Inr (False, s')" using Inr p by simp
      from step[OF less.prems st] have "I s'" "f s' < f st" by auto
      from less.hyps[OF this(2) this(1)] obtain s where
        r: "I s" "(\<exists>err. encode_step e fn ext bs s = Inl err \<and> encode_loop e fn ext bs s' = Some (Inl err)) \<or>
            (\<exists>r. encode_step e fn ext bs s = Inr (True, r) \<and> encode_loop e fn ext bs s' = Some (Inr r))"
        by blast
      have "encode_loop e fn ext bs st = encode_loop e fn ext bs s'"
        using st by (subst encode_loop.simps) simp
      then show ?thesis using r by auto
    qed
  qed
qed

lemma encode_loop_rule:
  assumes "I st"
    and step: "\<And>s. I s \<Longrightarrow> \<exists>fin s'. encode_step e fn ext bs s = Inr (fin, s') \<and>
                 (\<not> fin \<longrightarrow> I s' \<and> (f s' :: nat) < f s)"
  shows "\<exists>s r. I s \<and> encode_step e fn ext bs s = Inr (True, r) \<and> encode_loop e fn ext bs st = Some (Inr r)"
proof -
  have "I s' \<and> f s' < f s" if "I s" "encode_step e fn ext bs s = Inr (False, s')" for s s'
    using step[OF that(1)] that(2) by auto
  from encode_loop_ends[of I st e fn ext bs f, OF assms(1) this] obtain s where
    s: "I s" "(\<exists>err. encode_step e fn ext bs s = Inl err \<and> encode_loop e fn ext bs st = Some (Inl err)) \<or>
            (\<exists>r. encode_step e fn ext bs s = Inr (True, r) \<and> encode_loop e fn ext bs st = Some (Inr r))"
    by blast
  from step[OF s(1)] have "\<nexists>err. encode_step e fn ext bs s = Inl err" by auto
  then show ?thesis using s by blast
qed

lemma encode_iter_snoc:
  "encode_iter e fn ext bs k st = Some s \<Longrightarrow> encode_step e fn ext bs s = Inr (False, s') \<Longrightarrow>
   encode_iter e fn ext bs (Suc k) st = Some s'"
proof (induction k arbitrary: st)
  case 0
  then show ?case by simp
next
  case (Suc k)
  from Suc.prems(1) obtain t where
    t: "encode_step e fn ext bs st = Inr (False, t)" "encode_iter e fn ext bs k t = Some s"
    by (auto split: sum.splits if_splits)
  have "encode_iter e fn ext bs (Suc k) t = Some s'" by (rule Suc.IH[OF t(2) Suc.prems(2)])
  then show ?case using t(1) by (simp del: encode_iter.simps(2) add: encode_iter.simps(2)[of _ _ _ _ "Suc k"])
qed

lemma encode_iter_unsnoc:
  "encode_iter e fn ext bs (Suc k) st = Some s' \<Longrightarrow>
   \<exists>s. encode_iter e fn ext bs k st = Some s \<and> encode_step e fn ext bs s = Inr (False, s')"
proof (induction k arbitrary: st)
  case 0
  then show ?case by (auto split: sum.splits if_splits)
next
  case (Suc k)
  from Suc.prems obtain t where
    t: "encode_step e fn ext bs st = Inr (False, t)" "encode_iter e fn ext bs (Suc k) t = Some s'"
    by (simp only: encode_iter.simps(2)[of _ _ _ _ "Suc k"]) (auto split: sum.splits if_splits)
  from Suc.IH[OF t(2)] obtain s where "encode_iter e fn ext bs k t = Some s" "encode_step e fn ext bs s = Inr (False, s')"
    by blast
  then show ?case using t(1) by auto
qed

lemma encode_iter_invariant:
  assumes "encode_iter e fn ext bs k st = Some s" "I st"
    and "\<And>s s'. I s \<Longrightarrow> encode_step e fn ext bs s = Inr (False, s') \<Longrightarrow> I s'"
  shows "I s"
  using assms(1)
proof (induction k arbitrary: s)
  case 0
  then show ?case using assms(2) by simp
next
  case (Suc k)
  from encode_iter_unsnoc[OF Suc.prems] obtain t where
    "encode_iter e fn ext bs k st = Some t" "encode_step e fn ext bs t = Inr (False, s)" by blast
  then show ?case using Suc.IH assms(3) by blast
qed

lemma encode_iter_final_unique:
  assumes "encode_iter e fn ext bs k st = Some s" "encode_step e fn ext bs s = Inr (True, r)"
    and "encode_iter e fn ext bs k' st = Some s'" "encode_step e fn ext bs s' = Inr (True, r')"
  shows "k = k' \<and> s = s'"
  using assms
proof (induction k arbitrary: st k')
  case 0
  then show ?case by (cases k') (auto split: sum.splits if_splits)
next
  case (Suc k)
  from Suc.prems(1) obtain t where
    t: "encode_step e fn ext bs st = Inr (False, t)" "encode_iter e fn ext bs k t = Some s"
    by (auto split: sum.splits if_splits)
  show ?case
  proof (cases k')
    case 0
    then show ?thesis using Suc.prems(3,4) t(1) by simp
  next
    case (Suc j)
    then have "encode_iter e fn ext bs j t = Some s'" using Suc.prems(3) t(1) by simp
    from Suc.IH[OF t(2) Suc.prems(2) this Suc.prems(4)] show ?thesis using Suc by simp
  qed
qed

subsection \<open>decode\<close>

lemma index_of_None: "(index_of xs x = None) = (x \<notin> set xs)"
  by (induction xs) auto

lemma index_of_Some: "index_of xs x = Some i \<Longrightarrow> i < length xs \<and> xs ! i = x"
  by (induction xs arbitrary: i) (auto split: if_splits)

lemma index_of_nth: "distinct xs \<Longrightarrow> i < length xs \<Longrightarrow> index_of xs (xs ! i) = Some i"
proof (induction xs arbitrary: i)
  case Nil
  then show ?case by simp
next
  case (Cons x xs)
  then show ?case by (cases i) auto
qed

lemma is_bits_line_bits: "is_bits (line_bits e b ms)"
  by (induction ms arbitrary: b) (auto simp: is_bits_zfill is_bits_bin_str split: option.splits)

lemma write_bytes_spec:
  assumes "is_bits (output_data st)"
  shows "\<exists>ys. output_file (write_bytes st) = output_file st @ ys \<and>
              file_bits ys @ output_data (write_bytes st) = output_data st \<and>
              length (output_data (write_bytes st)) < 8 \<and> is_bits (output_data (write_bytes st))"
  using assms
proof (induction st rule: write_bytes.induct)
  case (1 st)
  show ?case
  proof (cases "length (output_data st) \<ge> 8")
    case False
    then show ?thesis using 1(2) by (subst (1 2 3 4) write_bytes.simps) simp
  next
    case True
    let ?b = "of_nat (int_of_bin (take 8 (output_data st))) :: byte"
    let ?st = "\<lparr>output_data = drop 8 (output_data st), output_file = output_file st @ [?b]\<rparr>"
    have w: "write_bytes st = write_bytes ?st" using True by (subst write_bytes.simps) simp
    have "is_bits (output_data ?st)" using 1(2) by (simp add: is_bits_drop)
    from 1(1)[OF True this] obtain ys where ys:
      "output_file (write_bytes ?st) = output_file ?st @ ys"
      "file_bits ys @ output_data (write_bytes ?st) = output_data ?st"
      "length (output_data (write_bytes ?st)) < 8" "is_bits (output_data (write_bytes ?st))" by blast
    have b: "to_binary_string (unat ?b) 8 = take 8 (output_data st)"
      using True 1(2) by (intro byte_of_bits) (auto simp: is_bits_take)
    have "file_bits (?b # ys) @ output_data (write_bytes ?st) = output_data st"
      using ys(2) b by simp
    moreover have "output_file (write_bytes ?st) = output_file st @ (?b # ys)" using ys(1) by simp
    ultimately show ?thesis unfolding w using ys(3,4) by blast
  qed
qed

lemma decode_moves_valid:
  assumes "valid_line e b ms" "is_bits (output_data st)"
  shows "\<exists>st' ys. decode_moves e b ms st = Inr st' \<and> output_file st' = output_file st @ ys \<and>
           file_bits ys @ output_data st' = output_data st @ line_bits e b ms \<and>
           is_bits (output_data st') \<and> (length (output_data st) < 8 \<longrightarrow> length (output_data st') < 8)"
  using assms
proof (induction ms arbitrary: b st)
  case Nil
  then show ?case by simp
next
  case (Cons m ms)
  from Cons.prems(1) obtain i where i: "index_of (legal_moves e b) m = Some i"
    by (cases "index_of (legal_moves e b) m") (auto simp: index_of_None)
  let ?mb = "zfill (bin_str i) (int_log2 (length (legal_moves e b)))"
  let ?st1 = "st\<lparr>output_data := output_data st @ ?mb\<rparr>"
  have bits1: "is_bits (output_data ?st1)" using Cons.prems(2) by (simp add: is_bits_zfill is_bits_bin_str)
  from write_bytes_spec[OF bits1] obtain ys where ys:
    "output_file (write_bytes ?st1) = output_file st @ ys"
    "file_bits ys @ output_data (write_bytes ?st1) = output_data st @ ?mb"
    "length (output_data (write_bytes ?st1)) < 8" "is_bits (output_data (write_bytes ?st1))" by auto
  have v: "valid_line e (push e b m) ms" using Cons.prems(1) by simp
  from Cons.IH[OF v ys(4)] obtain st' zs where st':
    "decode_moves e (push e b m) ms (write_bytes ?st1) = Inr st'"
    "output_file st' = output_file (write_bytes ?st1) @ zs"
    "file_bits zs @ output_data st' = output_data (write_bytes ?st1) @ line_bits e (push e b m) ms"
    "is_bits (output_data st')" "length (output_data st') < 8" using ys(3) by auto
  have "decode_moves e b (m # ms) st = Inr st'" using i st'(1) by (simp add: Let_def)
  moreover have "output_file st' = output_file st @ (ys @ zs)" using st'(2) ys(1) by simp
  moreover have "file_bits (ys @ zs) @ output_data st' = output_data st @ line_bits e b (m # ms)"
    using st'(3) ys(2) i by simp
  ultimately show ?case using st'(4,5) by blast
qed

lemma decode_moves_invalid:
  "\<not> valid_line e b ms \<Longrightarrow> \<exists>st'. decode_moves e b ms st = Inl st'"
proof (induction ms arbitrary: b st)
  case Nil
  then show ?case by simp
next
  case (Cons m ms)
  show ?case
  proof (cases "index_of (legal_moves e b) m")
    case None
    then show ?thesis by simp
  next
    case (Some i)
    then have "m \<in> set (legal_moves e b)" using index_of_None[of "legal_moves e b" m] by auto
    then have "\<not> valid_line e (push e b m) ms" using Cons.prems by simp
    from Cons.IH[OF this] show ?thesis using Some by (simp add: Let_def)
  qed
qed

lemma decode_games_valid:
  assumes "\<forall>moves \<in> set moves_list. valid_line e (start e) (split_ws moves)"
    "is_bits (output_data st)" "length (output_data st) < 8"
  shows "\<exists>st' ys. decode_games e moves_list st = Inr st' \<and> output_file st' = output_file st @ ys \<and>
           file_bits ys @ output_data st' = output_data st @ games_bits e moves_list \<and>
           is_bits (output_data st') \<and> length (output_data st') < 8"
  using assms
proof (induction moves_list arbitrary: st)
  case Nil
  then show ?case by (simp add: games_bits_def)
next
  case (Cons moves rest)
  have v: "valid_line e (start e) (split_ws moves)" using Cons.prems(1) by simp
  from decode_moves_valid[OF v Cons.prems(2)] Cons.prems(3) obtain st1 ys where st1:
    "decode_moves e (start e) (split_ws moves) st = Inr st1" "output_file st1 = output_file st @ ys"
    "file_bits ys @ output_data st1 = output_data st @ line_bits e (start e) (split_ws moves)"
    "is_bits (output_data st1)" "length (output_data st1) < 8" by blast
  have r: "\<forall>moves \<in> set rest. valid_line e (start e) (split_ws moves)" using Cons.prems(1) by simp
  from Cons.IH[OF r st1(4,5)] obtain st' zs where st':
    "decode_games e rest st1 = Inr st'" "output_file st' = output_file st1 @ zs"
    "file_bits zs @ output_data st' = output_data st1 @ games_bits e rest"
    "is_bits (output_data st')" "length (output_data st') < 8" by blast
  have "decode_games e (moves # rest) st = Inr st'" using st1(1) st'(1) by simp
  moreover have "output_file st' = output_file st @ (ys @ zs)" using st1(2) st'(2) by simp
  moreover have "file_bits (ys @ zs) @ output_data st' = output_data st @ games_bits e (moves # rest)"
    using st1(3) st'(3) by (simp add: games_bits_def)
  ultimately show ?case using st'(4,5) by blast
qed

lemma decode_games_invalid:
  "\<not> (\<forall>moves \<in> set moves_list. valid_line e (start e) (split_ws moves)) \<Longrightarrow>
   \<exists>st'. decode_games e moves_list st = Inl st'"
proof (induction moves_list arbitrary: st)
  case Nil
  then show ?case by simp
next
  case (Cons moves rest)
  show ?case
  proof (cases "valid_line e (start e) (split_ws moves)")
    case False
    from decode_moves_invalid[OF this] show ?thesis by (metis decode_games.simps(2) old.sum.simps(5))
  next
    case True
    then have "\<not> (\<forall>moves \<in> set rest. valid_line e (start e) (split_ws moves))" using Cons.prems by simp
    from Cons.IH[OF this] show ?thesis
      by (cases "decode_moves e (start e) (split_ws moves) st") auto
  qed
qed

lemma decode_valid:
  assumes "\<forall>moves \<in> set moves_list. valid_line e (start e) (split_ws moves)"
  shows "\<exists>ys od. decode e moves_list file0 metadata =
             (file0 @ ys, case metadata of None \<Rightarrow> Inl Decode_Error | Some x \<Rightarrow> Inr x) \<and>
           file_bits ys @ od = games_bits e moves_list \<and> length od < 8"
proof -
  from decode_games_valid[OF assms, of "\<lparr>output_data = [], output_file = file0\<rparr>"]
  obtain st' ys where
    "decode_games e moves_list \<lparr>output_data = [], output_file = file0\<rparr> = Inr st'"
    "output_file st' = file0 @ ys" "file_bits ys @ output_data st' = games_bits e moves_list"
    "length (output_data st') < 8" by auto
  then show ?thesis by (auto simp: decode_def)
qed

lemma decode_invalid:
  assumes "\<not> (\<forall>moves \<in> set moves_list. valid_line e (start e) (split_ws moves))"
  shows "snd (decode e moves_list file0 metadata) = Inl Decode_Error"
proof -
  from decode_games_invalid[OF assms] obtain st' where
    "decode_games e moves_list \<lparr>output_data = [], output_file = file0\<rparr> = Inl st'" by blast
  then show ?thesis by (simp add: decode_def)
qed

lemma bytes_of_whole:
  assumes "file_bits ys @ od = file_bits bs" "length od < 8"
  shows "ys = bs"
proof -
  have "8 * length ys + length od = 8 * length bs"
    using arg_cong[OF assms(1), of length] by simp
  then have "length od = 0" using assms(2) by presburger
  then show ?thesis using assms(1) by (simp add: file_bits_inj)
qed

lemma bytes_count:
  assumes "file_bits ys @ od = G" "length od < 8"
  shows "length ys = length G div 8"
proof -
  have "8 * length ys + length od = length G"
    using arg_cong[OF assms(1), of length] by simp
  then show ?thesis using assms(2) by presburger
qed

lemma valid_line_append:
  "valid_line e b (xs @ ys) = (valid_line e b xs \<and> valid_line e (foldl (push e) b xs) ys)"
  by (induction xs arbitrary: b) auto

lemma line_bits_append:
  "valid_line e b xs \<Longrightarrow> line_bits e b (xs @ ys) = line_bits e b xs @ line_bits e (foldl (push e) b xs) ys"
proof (induction xs arbitrary: b)
  case Nil
  then show ?case by simp
next
  case (Cons x xs)
  then show ?case by (cases "index_of (legal_moves e b) x") (auto simp: index_of_None)
qed

lemma numbered_Nil [simp]: "numbered []"
  by (simp add: numbered_def)

lemma numbered_snoc:
  "numbered ps \<Longrightarrow> PartNumber p = str_nat (length ps + 1) \<Longrightarrow> numbered (ps @ [p])"
  by (simp add: numbered_def)

lemma enc_inv_initial:
  "2 \<le> length (legal_moves e (start e)) \<Longrightarrow> bs \<noteq> [] \<Longrightarrow> enc_inv e bs (initial_state e)"
  by (cases bs) (simp_all add: enc_inv_def initial_state_def MAX_MOVES_PER_GAME_def)

lemma enc_inv_close:
  assumes "2 \<le> length (legal_moves e (start e))" "file_bit_index st < 8 * length bs" "numbered (output_pgns st)"
  shows "enc_inv e bs (close_state e fn ext st)"
  using assms by (simp add: enc_inv_def numbered_snoc)

lemma enc_inv_total:
  assumes "enc_inv e bs st" "headers_ok fn ext"
  shows "\<exists>fin s'. encode_step e fn ext bs st = Inr (fin, s')"
proof (cases "moves_in_current_game st \<ge> MAX_MOVES_PER_GAME")
  case True
  show ?thesis using encode_step_cap[OF True assms(2)] by blast
next
  case False
  then have "moves_in_current_game st < MAX_MOVES_PER_GAME" by simp
  moreover have "legal_moves e (chess_board st) \<noteq> []" using assms by (auto simp: enc_inv_def)
  ultimately show ?thesis using encode_step_play[OF _ _ assms(2)] by blast
qed

lemma enc_measure_advance:
  assumes "0 < w" "file_bit_index st + w < 8 * length bs" "file_bit_index s' = file_bit_index st + w"
  shows "enc_measure bs s' < enc_measure bs st"
proof -
  have "enc_measure bs s' \<le> 2 * (8 * length bs - (file_bit_index st + w)) + 1"
    using assms(3) by (simp add: enc_measure_def)
  moreover have "2 * (8 * length bs - (file_bit_index st + w)) + 1 < 2 * (8 * length bs - file_bit_index st)"
    using assms(1,2) by arith
  moreover have "2 * (8 * length bs - file_bit_index st) \<le> enc_measure bs st"
    by (simp add: enc_measure_def)
  ultimately show ?thesis by linarith
qed

lemma enc_inv_step:
  assumes start: "2 \<le> length (legal_moves e (start e))" and inv: "enc_inv e bs st"
    and step: "encode_step e fn ext bs st = Inr (False, s')"
  shows "enc_inv e bs s' \<and> enc_measure bs s' < enc_measure bs st"
proof (cases "moves_in_current_game st \<ge> MAX_MOVES_PER_GAME")
  case True
  then have s': "s' = close_state e fn ext st" using step encode_step_cap_eq[OF True step] by simp
  have "enc_inv e bs s'" unfolding s' using inv by (intro enc_inv_close[OF start]) (auto simp: enc_inv_def)
  moreover have "enc_measure bs s' < enc_measure bs st"
    using True by (simp add: s' enc_measure_def MAX_MOVES_PER_GAME_def)
  ultimately show ?thesis by simp
next
  case False
  let ?s1 = "push_chunk e bs st"
  let ?w = "max_binary_length e bs st"
  have i: "file_bit_index st < 8 * length bs" and l: "2 \<le> length (legal_moves e (chess_board st))"
    and n: "moves_in_current_game st = length (move_stack st)" and nb: "numbered (output_pgns st)"
    using inv by (auto simp: enc_inv_def)
  have ne: "legal_moves e (chess_board st) \<noteq> []" using l by auto
  have lt: "moves_in_current_game st < MAX_MOVES_PER_GAME" using False by simp
  note play = encode_step_play_eq[OF lt step]
  have w: "0 < ?w" by (rule width_facts(1)[OF i l])
  have notfin: "file_bit_index st + ?w < 8 * length bs" using step play by auto
  have i1: "file_bit_index ?s1 < 8 * length bs" using notfin by (simp add: push_chunk_fields(1))
  have n1: "moves_in_current_game ?s1 = length (move_stack ?s1)" by (rule push_chunk_fields(3)[OF n])
  have n1': "moves_in_current_game ?s1 \<le> MAX_MOVES_PER_GAME"
    using push_chunk_fields(4)[of e bs st] lt by simp
  have nb1: "numbered (output_pgns ?s1)" using nb by (simp add: push_chunk_fields(2))
  show ?thesis
  proof (cases "game_over e (chess_board ?s1)")
    case True
    then have s': "s' = close_state e fn ext ?s1" using step play by auto
    have "enc_inv e bs s'" unfolding s' by (rule enc_inv_close[OF start i1 nb1])
    moreover have "enc_measure bs s' < enc_measure bs st"
      by (rule enc_measure_advance[OF w notfin]) (simp add: s' push_chunk_fields(1))
    ultimately show ?thesis by simp
  next
    case go: False
    then have s': "s' = ?s1" using step play notfin by auto
    have "2 \<le> length (legal_moves e (chess_board ?s1))" using go by (simp add: game_over_def)
    then have "enc_inv e bs s'" unfolding s' using i1 n1 n1' nb1 by (simp add: enc_inv_def)
    moreover have "enc_measure bs s' < enc_measure bs st"
      by (rule enc_measure_advance[OF w notfin]) (simp add: s' push_chunk_fields(1))
    ultimately show ?thesis by simp
  qed
qed

lemma encode_step_final:
  assumes inv: "enc_inv e bs st" and step: "encode_step e fn ext bs st = Inr (True, r)"
  shows "moves_in_current_game st < MAX_MOVES_PER_GAME"
    and "file_bit_index st + max_binary_length e bs st = 8 * length bs"
    and "r = close_state e fn ext (push_chunk e bs st)"
proof -
  show lt: "moves_in_current_game st < MAX_MOVES_PER_GAME"
    using step by (cases "moves_in_current_game st \<ge> MAX_MOVES_PER_GAME") (auto dest: encode_step_cap_eq)
  have i: "file_bit_index st < 8 * length bs" and l: "2 \<le> length (legal_moves e (chess_board st))"
    using inv by (auto simp: enc_inv_def)
  have ne: "legal_moves e (chess_board st) \<noteq> []" using l by auto
  note play = encode_step_play_eq[OF lt step]
  have "file_bit_index st + max_binary_length e bs st \<ge> 8 * length bs" using step play by auto
  then show "file_bit_index st + max_binary_length e bs st = 8 * length bs"
    using width_facts(2)[OF i l] by simp
  then show "r = close_state e fn ext (push_chunk e bs st)" using step play by auto
qed

lemma step_okI:
  assumes "engine_ok e" "enc_inv e bs st" "moves_in_current_game st < MAX_MOVES_PER_GAME"
  shows "step_ok e bs st"
proof -
  have "length (legal_moves e (chess_board st)) < 256" "distinct (legal_moves e (chess_board st))"
    using assms(1) by (auto simp: engine_ok_def)
  then show ?thesis using assms(2,3) by (simp add: step_ok_def enc_inv_def Let_def)
qed

lemma parts_bits_snoc [simp]:
  "parts_bits e (ps @ [p]) = parts_bits e ps @ line_bits e (start e) (mainline p)"
  by (simp add: parts_bits_def)

lemma dec_rel_close: "dec_rel e st S \<Longrightarrow> dec_rel e (close_state e fn ext st) S"
  by (auto simp: dec_rel_def)

lemma selected_move_index:
  assumes "step_ok e bs st"
  shows "int_of_bin (next_file_chunk bs (file_bit_index st) (max_binary_length e bs st))
           < 2 ^ max_binary_length e bs st"
  using int_of_bin_less[of "next_file_chunk bs (file_bit_index st) (max_binary_length e bs st)"]
  by (simp add: chunk_facts(2)[OF assms])

lemma selected_move_bits:
  assumes ok: "step_ok e bs st"
  shows "line_bits e (chess_board st) [selected_move e bs st] =
     replicate (int_log2 (length (legal_moves e (chess_board st))) - max_binary_length e bs st) (CHR ''0'') @
     next_file_chunk bs (file_bit_index st) (max_binary_length e bs st)"
    and "selected_move e bs st \<in> set (legal_moves e (chess_board st))"
proof -
  let ?ms = "legal_moves e (chess_board st)"
  let ?w = "max_binary_length e bs st"
  let ?chunk = "next_file_chunk bs (file_bit_index st) ?w"
  let ?c = "int_of_bin ?chunk"
  have i: "file_bit_index st < 8 * length bs" and l: "2 \<le> length ?ms" and d: "distinct ?ms"
    using ok by (simp_all add: step_ok_def Let_def)
  have w: "0 < ?w" by (rule width_facts(1)[OF i l])
  have c: "?c < 2 ^ ?w" by (rule selected_move_index[OF ok])
  then have cl: "?c < length ?ms" using width_facts(3)[OF i l] by simp
  show "selected_move e bs st \<in> set ?ms" unfolding selected_move_def using cl by simp
  have idx: "index_of ?ms (selected_move e bs st) = Some ?c"
    unfolding selected_move_def by (rule index_of_nth[OF d cl])
  have "length (bin_str ?c) \<le> ?w" using c by (simp add: length_bin_str_le[OF w])
  then have "zfill (bin_str ?c) (int_log2 (length ?ms)) =
      replicate (int_log2 (length ?ms) - ?w) (CHR ''0'') @ to_binary_string ?c ?w"
    by (rule zfill_wider[OF _ width_facts(4)[OF i l]])
  moreover have "to_binary_string ?c ?w = ?chunk"
  proof -
    have "?chunk \<noteq> []" using chunk_facts(2)[OF ok] w by auto
    from to_binary_string_int_of_bin[OF chunk_facts(3)[OF ok] this]
    show ?thesis unfolding chunk_facts(2)[OF ok] .
  qed
  ultimately show "line_bits e (chess_board st) [selected_move e bs st] =
     replicate (int_log2 (length ?ms) - ?w) (CHR ''0'') @ ?chunk"
    using idx by simp
qed

lemma dec_rel_push:
  assumes ok: "step_ok e bs st" and rel: "dec_rel e st S"
  shows "dec_rel e (push_chunk e bs st)
     (S @ replicate (int_log2 (length (legal_moves e (chess_board st))) - max_binary_length e bs st) (CHR ''0'') @
      next_file_chunk bs (file_bit_index st) (max_binary_length e bs st))"
proof -
  let ?m = "selected_move e bs st"
  let ?Z = "replicate (int_log2 (length (legal_moves e (chess_board st))) - max_binary_length e bs st) (CHR ''0'')"
  let ?chunk = "next_file_chunk bs (file_bit_index st) (max_binary_length e bs st)"
  have b: "chess_board st = foldl (push e) (start e) (move_stack st)"
    and v: "valid_line e (start e) (move_stack st)"
    and ps: "\<forall>p \<in> set (output_pgns st). valid_line e (start e) (mainline p)"
    and S: "parts_bits e (output_pgns st) @ line_bits e (start e) (move_stack st) = S"
    using rel by (auto simp: dec_rel_def)
  note m = selected_move_bits[OF ok]
  have b': "push e (chess_board st) ?m = foldl (push e) (start e) (move_stack st @ [?m])"
    using b by simp
  have v': "valid_line e (start e) (move_stack st @ [?m])"
    using v m(2) b by (simp add: valid_line_append)
  have "line_bits e (start e) (move_stack st @ [?m]) =
      line_bits e (start e) (move_stack st) @ line_bits e (chess_board st) [?m]"
    using line_bits_append[OF v, of "[?m]"] unfolding b[symmetric] .
  then have "parts_bits e (output_pgns st) @ line_bits e (start e) (move_stack st @ [?m]) = S @ ?Z @ ?chunk"
    using S m(1) by (simp del: line_bits.simps)
  then show ?thesis
    unfolding push_chunk_ok[OF ok] dec_rel_def using b' v' ps
    by (simp del: line_bits.simps valid_line.simps foldl_append)
qed

lemma dec_rel_step:
  assumes eng: "engine_ok e" and inv: "enc_inv e bs st"
    and rel: "dec_rel e st (take (file_bit_index st) (file_bits bs))"
    and step: "encode_step e fn ext bs st = Inr (False, s')"
  shows "dec_rel e s' (take (file_bit_index s') (file_bits bs))"
proof (cases "moves_in_current_game st \<ge> MAX_MOVES_PER_GAME")
  case True
  then have s': "s' = close_state e fn ext st" using step encode_step_cap_eq[OF True step] by simp
  show ?thesis unfolding s' using dec_rel_close[OF rel] by simp
next
  case False
  let ?s1 = "push_chunk e bs st"
  let ?w = "max_binary_length e bs st"
  have lt: "moves_in_current_game st < MAX_MOVES_PER_GAME" using False by simp
  have ok: "step_ok e bs st" by (rule step_okI[OF eng inv lt])
  have ne: "legal_moves e (chess_board st) \<noteq> []" using inv by (auto simp: enc_inv_def)
  note play = encode_step_play_eq[OF lt step]
  have notfin: "file_bit_index st + ?w < 8 * length bs" using step play by auto
  then have weq: "?w = int_log2 (length (legal_moves e (chess_board st)))"
    by (simp add: max_binary_length_def min_def split: if_splits)
  have "take (file_bit_index st) (file_bits bs) @ next_file_chunk bs (file_bit_index st) ?w =
        take (file_bit_index st + ?w) (file_bits bs)"
    by (simp add: chunk_facts(1)[OF ok] take_add)
  then have rel1: "dec_rel e ?s1 (take (file_bit_index ?s1) (file_bits bs))"
    using dec_rel_push[OF ok rel] weq by (simp add: push_chunk_fields(1))
  have "s' = close_state e fn ext ?s1 \<or> s' = ?s1" using step play by (auto split: if_splits)
  then show ?thesis using rel1 dec_rel_close[OF rel1] by auto
qed

lemma encode_general:
  assumes eng: "engine_ok e" and ne: "bs \<noteq> []" and hok: "headers_ok fn ext"
  shows "\<exists>k s r. loop_top e fn ext bs k = Some s \<and> enc_inv e bs s \<and>
           encode_step e fn ext bs s = Inr (True, r) \<and>
           encode_loop e fn ext bs (initial_state e) = Some (Inr r) \<and>
           (\<forall>p \<in> set (output_pgns r). valid_line e (start e) (mainline p)) \<and>
           parts_bits e (output_pgns r) =
             take (file_bit_index s) (file_bits bs) @
             replicate (int_log2 (length (legal_moves e (chess_board s))) - max_binary_length e bs s) (CHR ''0'') @
             drop (file_bit_index s) (file_bits bs)"
proof -
  have start: "2 \<le> length (legal_moves e (start e))" using eng by (simp add: engine_ok_def)
  define I where "I s = ((\<exists>k. encode_iter e fn ext bs k (initial_state e) = Some s) \<and> enc_inv e bs s \<and>
     dec_rel e s (take (file_bit_index s) (file_bits bs)))" for s
  have I0: "I (initial_state e)"
  proof -
    have "encode_iter e fn ext bs 0 (initial_state e) = Some (initial_state e)" by simp
    moreover have "dec_rel e (initial_state e) (take (file_bit_index (initial_state e)) (file_bits bs))"
      by (simp add: dec_rel_def initial_state_def parts_bits_def)
    ultimately show ?thesis unfolding I_def using enc_inv_initial[OF start ne] by blast
  qed
  have Istep: "\<exists>fin s'. encode_step e fn ext bs s = Inr (fin, s') \<and>
       (\<not> fin \<longrightarrow> I s' \<and> enc_measure bs s' < enc_measure bs s)" if "I s" for s
  proof -
    from that obtain k where k: "encode_iter e fn ext bs k (initial_state e) = Some s"
      and inv: "enc_inv e bs s" and rel: "dec_rel e s (take (file_bit_index s) (file_bits bs))"
      unfolding I_def by blast
    from enc_inv_total[OF inv hok] obtain fin s' where st: "encode_step e fn ext bs s = Inr (fin, s')" by blast
    show ?thesis
    proof (cases fin)
      case True
      then show ?thesis using st by blast
    next
      case False
      then have st': "encode_step e fn ext bs s = Inr (False, s')" using st by simp
      have "encode_iter e fn ext bs (Suc k) (initial_state e) = Some s'" by (rule encode_iter_snoc[OF k st'])
      then have "I s'" unfolding I_def
        using enc_inv_step[OF start inv st'] dec_rel_step[OF eng inv rel st'] by blast
      then show ?thesis using st' enc_inv_step[OF start inv st'] by blast
    qed
  qed
  from encode_loop_rule[of I "initial_state e" e fn ext bs "enc_measure bs", OF I0 Istep]
  obtain s r where s: "I s" "encode_step e fn ext bs s = Inr (True, r)"
    "encode_loop e fn ext bs (initial_state e) = Some (Inr r)" by blast
  from s(1) obtain k where k: "encode_iter e fn ext bs k (initial_state e) = Some s"
    and inv: "enc_inv e bs s" and rel: "dec_rel e s (take (file_bit_index s) (file_bits bs))"
    unfolding I_def by blast
  note fin = encode_step_final[OF inv s(2)]
  have ok: "step_ok e bs s" by (rule step_okI[OF eng inv fin(1)])
  have "next_file_chunk bs (file_bit_index s) (max_binary_length e bs s) = drop (file_bit_index s) (file_bits bs)"
    using fin(2) by (simp add: chunk_facts(1)[OF ok])
  then have "dec_rel e r (take (file_bit_index s) (file_bits bs) @
             replicate (int_log2 (length (legal_moves e (chess_board s))) - max_binary_length e bs s) (CHR ''0'') @
             drop (file_bit_index s) (file_bits bs))"
    using dec_rel_close[OF dec_rel_push[OF ok rel], of fn ext] fin(3) by simp
  then have "(\<forall>p \<in> set (output_pgns r). valid_line e (start e) (mainline p)) \<and>
           parts_bits e (output_pgns r) =
             take (file_bit_index s) (file_bits bs) @
             replicate (int_log2 (length (legal_moves e (chess_board s))) - max_binary_length e bs s) (CHR ''0'') @
             drop (file_bit_index s) (file_bits bs)"
    unfolding fin(3) by (simp add: dec_rel_def)
  then show ?thesis using k inv s(2,3) unfolding loop_top_def by blast
qed

subsection \<open>Decoding what encode produced\<close>

lemma valid_line_tokens: "uci_ok e \<Longrightarrow> valid_line e b ms \<Longrightarrow> \<forall>m \<in> set ms. uci_token m"
  by (induction ms arbitrary: b) (auto simp: uci_ok_def)

lemma games_of_parts:
  assumes "uci_ok e" "\<forall>p \<in> set ps. valid_line e (start e) (mainline p)"
  shows "games_bits e (map (\<lambda>p. join_sp (mainline p)) ps) = parts_bits e ps"
    and "\<forall>moves \<in> set (map (\<lambda>p. join_sp (mainline p)) ps). valid_line e (start e) (split_ws moves)"
proof -
  have s: "split_ws (join_sp (mainline p)) = mainline p" if "p \<in> set ps" for p
    using that assms valid_line_tokens[OF assms(1)] by (intro split_ws_join_sp) blast
  show "games_bits e (map (\<lambda>p. join_sp (mainline p)) ps) = parts_bits e ps"
    unfolding games_bits_def parts_bits_def using s by (simp add: map_idI cong: map_cong)
  show "\<forall>moves \<in> set (map (\<lambda>p. join_sp (mainline p)) ps). valid_line e (start e) (split_ws moves)"
    using s assms(2) by auto
qed

lemma encode_result:
  assumes "encode_loop e fn ext bs (initial_state e) = Some (Inr r)" "bs \<noteq> []"
  shows "encode e fn ext bs = Some (Inr \<lparr>pgn = output_pgns r, file_name = fn, pending_game = True,
            game_count = length (output_pgns r), move_counts = map (\<lambda>p. length (mainline p)) (output_pgns r)\<rparr>)"
  using assms by (simp add: encode_def)

lemma loop_top_inv:
  assumes "2 \<le> length (legal_moves e (start e))" "bs \<noteq> []" "loop_top e fn ext bs k = Some st"
  shows "enc_inv e bs st"
proof -
  have "encode_iter e fn ext bs k (initial_state e) = Some st" using assms(3) by (simp add: loop_top_def)
  then show ?thesis
    by (rule encode_iter_invariant[where I = "enc_inv e bs"])
       (auto intro: enc_inv_initial[OF assms(1,2)] dest: enc_inv_step[OF assms(1)])
qed

lemma encode_weak:
  assumes start: "2 \<le> length (legal_moves e (start e))" and ne: "bs \<noteq> []"
    and hok: "headers_ok fn ext"
  shows "\<exists>s r. enc_inv e bs s \<and> encode_step e fn ext bs s = Inr (True, r) \<and>
           encode_loop e fn ext bs (initial_state e) = Some (Inr r)"
proof -
  have "\<exists>fin s'. encode_step e fn ext bs s = Inr (fin, s') \<and>
       (\<not> fin \<longrightarrow> enc_inv e bs s' \<and> enc_measure bs s' < enc_measure bs s)" if "enc_inv e bs s" for s
    using enc_inv_total[OF that hok] enc_inv_step[OF start that] by (metis (full_types))
  from encode_loop_rule[of "enc_inv e bs" "initial_state e" e fn ext bs "enc_measure bs",
      OF enc_inv_initial[OF start ne] this]
  show ?thesis by blast
qed

text \<open>With a line break in the name or the extension the first game emitted raises.\<close>

lemma encode_bad_headers:
  assumes start: "2 \<le> length (legal_moves e (start e))" and ne: "bs \<noteq> []"
    and bad: "\<not> headers_ok fn ext"
  shows "encode e fn ext bs = Some (Inl Header_Error)"
proof -
  have "enc_inv e bs s' \<and> enc_measure bs s' < enc_measure bs s"
    if "enc_inv e bs s" "encode_step e fn ext bs s = Inr (False, s')" for s s'
    using enc_inv_step[OF start that] .
  from encode_loop_ends[of "enc_inv e bs" "initial_state e" e fn ext bs "enc_measure bs",
      OF enc_inv_initial[OF start ne] this]
  obtain s where s: "enc_inv e bs s"
    "(\<exists>err. encode_step e fn ext bs s = Inl err \<and> encode_loop e fn ext bs (initial_state e) = Some (Inl err)) \<or>
     (\<exists>r. encode_step e fn ext bs s = Inr (True, r) \<and> encode_loop e fn ext bs (initial_state e) = Some (Inr r))"
    by blast
  have l: "legal_moves e (chess_board s) \<noteq> []" using s(1) by (auto simp: enc_inv_def)
  have "\<nexists>r. encode_step e fn ext bs s = Inr (True, r)"
    using encode_step_closed_ok[of e fn ext bs s True] bad by blast
  then obtain err where err: "encode_step e fn ext bs s = Inl err"
    "encode_loop e fn ext bs (initial_state e) = Some (Inl err)" using s(2) by blast
  have "err = Header_Error" by (rule encode_step_bad_headers[OF bad err(1) l])
  then show ?thesis using err(2) ne by (simp add: encode_def)
qed

lemma decode_encoded:
  assumes eng: "engine_ok e" and uci: "uci_ok e" and ne: "bs \<noteq> []" and hok: "headers_ok fn ext"
  shows "\<exists>k s r ys od. loop_top e fn ext bs k = Some s \<and> enc_inv e bs s \<and>
           moves_in_current_game s < MAX_MOVES_PER_GAME \<and>
           file_bit_index s + max_binary_length e bs s = 8 * length bs \<and>
           encode e fn ext bs = Some (Inr r) \<and>
           decode e (map (\<lambda>p. join_sp (mainline p)) (pgn r)) file0 metadata =
             (file0 @ ys, case metadata of None \<Rightarrow> Inl Decode_Error | Some x \<Rightarrow> Inr x) \<and>
           file_bits ys @ od = games_bits e (map (\<lambda>p. join_sp (mainline p)) (pgn r)) \<and>
           games_bits e (map (\<lambda>p. join_sp (mainline p)) (pgn r)) =
             take (file_bit_index s) (file_bits bs) @
             replicate (int_log2 (length (legal_moves e (chess_board s))) - max_binary_length e bs s) (CHR ''0'') @
             drop (file_bit_index s) (file_bits bs) \<and>
           length od < 8"
proof -
  from encode_general[OF eng ne hok] obtain k s r where
    k: "loop_top e fn ext bs k = Some s" and inv: "enc_inv e bs s"
    and st: "encode_step e fn ext bs s = Inr (True, r)"
    and loop: "encode_loop e fn ext bs (initial_state e) = Some (Inr r)"
    and valid: "\<forall>p \<in> set (output_pgns r). valid_line e (start e) (mainline p)"
    and bits: "parts_bits e (output_pgns r) =
             take (file_bit_index s) (file_bits bs) @
             replicate (int_log2 (length (legal_moves e (chess_board s))) - max_binary_length e bs s) (CHR ''0'') @
             drop (file_bit_index s) (file_bits bs)" by blast
  let ?r = "\<lparr>pgn = output_pgns r, file_name = fn, pending_game = True,
            game_count = length (output_pgns r), move_counts = map (\<lambda>p. length (mainline p)) (output_pgns r)\<rparr>"
  have enc: "encode e fn ext bs = Some (Inr ?r)" by (rule encode_result[OF loop ne])
  note g = games_of_parts[OF uci valid]
  from decode_valid[OF g(2), of file0 metadata] obtain ys od where
    d: "decode e (map (\<lambda>p. join_sp (mainline p)) (output_pgns r)) file0 metadata =
             (file0 @ ys, case metadata of None \<Rightarrow> Inl Decode_Error | Some x \<Rightarrow> Inr x)"
    "file_bits ys @ od = games_bits e (map (\<lambda>p. join_sp (mainline p)) (output_pgns r))" "length od < 8"
    by blast
  note fin = encode_step_final[OF inv st]
  have "decode e (map (\<lambda>p. join_sp (mainline p)) (pgn ?r)) file0 metadata =
             (file0 @ ys, case metadata of None \<Rightarrow> Inl Decode_Error | Some x \<Rightarrow> Inr x)"
    using d(1) by simp
  moreover have "file_bits ys @ od = games_bits e (map (\<lambda>p. join_sp (mainline p)) (pgn ?r))"
    using d(2) by simp
  moreover have "games_bits e (map (\<lambda>p. join_sp (mainline p)) (pgn ?r)) =
             take (file_bit_index s) (file_bits bs) @
             replicate (int_log2 (length (legal_moves e (chess_board s))) - max_binary_length e bs s) (CHR ''0'') @
             drop (file_bit_index s) (file_bits bs)"
    using g(1) bits by simp
  ultimately show ?thesis using k inv fin(1,2) enc d(3) by blast
qed

lemma self_shift:
  assumes "T = take (length T) (replicate d c @ T)" "0 < d"
  shows "T = replicate (length T) c"
proof -
  have "T ! i = c" if "i < length T" for i
    using that
  proof (induction i rule: less_induct)
    case (less i)
    have "T ! i = take (length T) (replicate d c @ T) ! i"
      by (rule arg_cong[OF assms(1), of "\<lambda>xs. xs ! i"])
    also have "\<dots> = (replicate d c @ T) ! i" using less.prems by (rule nth_take)
    also have "\<dots> = c"
    proof (cases "i < d")
      case True
      then show ?thesis by (simp add: nth_append)
    next
      case False
      then have "(replicate d c @ T) ! i = T ! (i - d)" by (simp add: nth_append)
      moreover have "T ! (i - d) = c" using False assms(2) less.prems by (intro less.IH) auto
      ultimately show ?thesis by simp
    qed
    finally show ?case .
  qed
  then show ?thesis by (intro replicate_eqI) (auto simp: in_set_conv_nth)
qed

lemma addressable_valid: "addressable e b ms \<Longrightarrow> valid_line e b ms"
proof (induction ms arbitrary: b)
  case Nil
  then show ?case by simp
next
  case (Cons m ms)
  then show ?case by (cases "index_of (legal_moves e b) m") (auto dest!: index_of_Some)
qed

lemma addressable_length: "addressable e b ms \<Longrightarrow> length (line_bits e b ms) = line_width e b ms"
proof (induction ms arbitrary: b)
  case Nil
  then show ?case by simp
next
  case (Cons m ms)
  from Cons.prems obtain i where i: "index_of (legal_moves e b) m = Some i"
    "0 < int_log2 (length (legal_moves e b))" "i < 2 ^ int_log2 (length (legal_moves e b))"
    "addressable e (push e b m) ms"
    by (cases "index_of (legal_moves e b) m") auto
  have "length (zfill (bin_str i) (int_log2 (length (legal_moves e b)))) = int_log2 (length (legal_moves e b))"
    using length_to_binary_string_eq[OF i(2,3)] by (simp add: to_binary_string_def)
  then show ?case using i(1) Cons.IH[OF i(4)] by simp
qed

lemma total_width_length:
  "\<forall>moves \<in> set moves_list. addressable e (start e) (split_ws moves) \<Longrightarrow>
   length (games_bits e moves_list) = total_width e moves_list"
  by (induction moves_list) (auto simp: games_bits_def total_width_def addressable_length)

subsection \<open>The engine with fixed moves\<close>

lemma fixed_engine_simps [simp]:
  "start (fixed_engine ms) = []" "legal_moves (fixed_engine ms) b = ms"
  "push (fixed_engine ms) b m = b @ [m]"
  "is_insufficient_material (fixed_engine ms) b = False" "can_claim_draw (fixed_engine ms) b = False"
  by (simp_all add: fixed_engine_def)

lemma fixed_engine_ok: "distinct ms \<Longrightarrow> 2 \<le> length ms \<Longrightarrow> length ms < 256 \<Longrightarrow> engine_ok (fixed_engine ms)"
  by (simp add: engine_ok_def)

lemma fixed_engine_uci: "\<forall>m \<in> set ms. uci_token m \<Longrightarrow> uci_ok (fixed_engine ms)"
  by (simp add: uci_ok_def)

lemma opening_moves_facts:
  "distinct opening_moves" "length opening_moves = 20" "\<forall>m \<in> set opening_moves. uci_token m"
  by code_simp+

lemma opening_engine_ok: "engine_ok (fixed_engine opening_moves)" "uci_ok (fixed_engine opening_moves)"
  using opening_moves_facts by (simp_all add: fixed_engine_ok fixed_engine_uci)

lemma eight_moves_facts:
  "distinct (take 8 opening_moves)" "length (take 8 opening_moves) = 8" "\<forall>m \<in> set (take 8 opening_moves). uci_token m"
  by code_simp+

lemma eight_engine_ok: "engine_ok (fixed_engine (take 8 opening_moves))" "uci_ok (fixed_engine (take 8 opening_moves))"
  using eight_moves_facts by (simp_all add: fixed_engine_ok fixed_engine_uci)

section \<open>Properties of the codec\<close>

text \<open>
  C4. \<^verbatim>\<open>encode\<close> on an empty file raises the \<^verbatim>\<open>ValueError\<close> of its file-reading block, whatever
  the rules engine: no game is produced.
\<close>

theorem encode_empty: "encode e fname file_extension [] = Some (Inl File_Error)"
  by (simp add: encode_def)

text \<open>
  C3. If some game of the input holds a move that is not among the legal moves of the
  position it is played in (replaying the game from the fresh board), \<^verbatim>\<open>decode\<close> raises its
  \<^verbatim>\<open>ValueError\<close>: it does not return a value.
\<close>

theorem decode_corrupt:
  assumes "\<exists>moves \<in> set moves_list. \<not> valid_line e (start e) (split_ws moves)"
  shows "snd (decode e moves_list file0 metadata) = Inl Decode_Error"
  using assms by (intro decode_invalid) blast

theorem decode_corrupt_witness:
  "(\<exists>moves \<in> set [''e2e4 e2e5'']. \<not> valid_line (fixed_engine opening_moves) (start (fixed_engine opening_moves)) (split_ws moves)) \<and>
   snd (decode (fixed_engine opening_moves) [''e2e4 e2e5''] [] (Some ''txt'')) = Inl Decode_Error"
proof -
  have h: "\<exists>moves \<in> set [''e2e4 e2e5'']. \<not> valid_line (fixed_engine opening_moves) (start (fixed_engine opening_moves)) (split_ws moves)"
    by code_simp
  from decode_corrupt[OF h] h show ?thesis by blast
qed

text \<open>
  C10. When the starting position offers at least two moves, \<^verbatim>\<open>encode\<close> terminates on every
  non-empty file: it returns its result when the file's name and extension hold no line
  break, and otherwise raises when it emits the first game. At the top of every pass of the
  loop the position has at least two legal moves and at least one bit of the file remains;
  a pass that is not a 100-move close has a width of at least 1 and advances the pointer by
  it, never past the end of the file; a 100-move close leaves the pointer where it is and is
  followed by a pass that is not one.
\<close>

theorem encode_terminates:
  assumes "2 \<le> length (legal_moves e (start e))" "file_bytes \<noteq> []"
  shows "encode e fname file_extension file_bytes \<noteq> None \<and>
    (headers_ok fname file_extension \<longrightarrow> (\<exists>r. encode e fname file_extension file_bytes = Some (Inr r))) \<and>
    (\<not> headers_ok fname file_extension \<longrightarrow> encode e fname file_extension file_bytes = Some (Inl Header_Error)) \<and>
    (\<forall>k st. loop_top e fname file_extension file_bytes k = Some st \<longrightarrow>
       2 \<le> length (legal_moves e (chess_board st)) \<and> file_bit_index st < 8 * length file_bytes \<and>
       (moves_in_current_game st < MAX_MOVES_PER_GAME \<longrightarrow>
          1 \<le> max_binary_length e file_bytes st \<and>
          file_bit_index st + max_binary_length e file_bytes st \<le> 8 * length file_bytes \<and>
          (headers_ok fname file_extension \<longrightarrow>
             (\<exists>eof_reached st'. encode_step e fname file_extension file_bytes st = Inr (eof_reached, st'))) \<and>
          (\<forall>eof_reached st'. encode_step e fname file_extension file_bytes st = Inr (eof_reached, st') \<longrightarrow>
             file_bit_index st' = file_bit_index st + max_binary_length e file_bytes st)) \<and>
       (MAX_MOVES_PER_GAME \<le> moves_in_current_game st \<longrightarrow>
          (headers_ok fname file_extension \<longrightarrow>
             (\<exists>st'. encode_step e fname file_extension file_bytes st = Inr (False, st'))) \<and>
          (\<forall>eof_reached st'. encode_step e fname file_extension file_bytes st = Inr (eof_reached, st') \<longrightarrow>
             \<not> eof_reached \<and> file_bit_index st' = file_bit_index st \<and>
             moves_in_current_game st' < MAX_MOVES_PER_GAME)))"
proof -
  have good: "\<exists>r. encode e fname file_extension file_bytes = Some (Inr r)" if "headers_ok fname file_extension"
  proof -
    from encode_weak[OF assms that] obtain r where
      "encode_loop e fname file_extension file_bytes (initial_state e) = Some (Inr r)" by blast
    from encode_result[OF this assms(2)] show ?thesis by blast
  qed
  have bad: "encode e fname file_extension file_bytes = Some (Inl Header_Error)"
    if "\<not> headers_ok fname file_extension"
    by (rule encode_bad_headers[OF assms that])
  have some: "encode e fname file_extension file_bytes \<noteq> None"
    using good bad by (cases "headers_ok fname file_extension") auto
  have tops: "2 \<le> length (legal_moves e (chess_board st)) \<and> file_bit_index st < 8 * length file_bytes \<and>
       (moves_in_current_game st < MAX_MOVES_PER_GAME \<longrightarrow>
          1 \<le> max_binary_length e file_bytes st \<and>
          file_bit_index st + max_binary_length e file_bytes st \<le> 8 * length file_bytes \<and>
          (headers_ok fname file_extension \<longrightarrow>
             (\<exists>eof_reached st'. encode_step e fname file_extension file_bytes st = Inr (eof_reached, st'))) \<and>
          (\<forall>eof_reached st'. encode_step e fname file_extension file_bytes st = Inr (eof_reached, st') \<longrightarrow>
             file_bit_index st' = file_bit_index st + max_binary_length e file_bytes st)) \<and>
       (MAX_MOVES_PER_GAME \<le> moves_in_current_game st \<longrightarrow>
          (headers_ok fname file_extension \<longrightarrow>
             (\<exists>st'. encode_step e fname file_extension file_bytes st = Inr (False, st'))) \<and>
          (\<forall>eof_reached st'. encode_step e fname file_extension file_bytes st = Inr (eof_reached, st') \<longrightarrow>
             \<not> eof_reached \<and> file_bit_index st' = file_bit_index st \<and>
             moves_in_current_game st' < MAX_MOVES_PER_GAME))"
    if top: "loop_top e fname file_extension file_bytes k = Some st" for k st
  proof (intro conjI impI allI)
    have inv: "enc_inv e file_bytes st" by (rule loop_top_inv[OF assms top])
    then show l: "2 \<le> length (legal_moves e (chess_board st))"
      and i: "file_bit_index st < 8 * length file_bytes" by (auto simp: enc_inv_def)
    show "1 \<le> max_binary_length e file_bytes st" using width_facts(1)[OF i l] by simp
    show "file_bit_index st + max_binary_length e file_bytes st \<le> 8 * length file_bytes"
      by (rule width_facts(2)[OF i l])
    {
      assume "headers_ok fname file_extension"
      from enc_inv_total[OF inv this]
      show "\<exists>eof_reached st'. encode_step e fname file_extension file_bytes st = Inr (eof_reached, st')" .
    }
    {
      fix eof_reached st'
      assume lt: "moves_in_current_game st < MAX_MOVES_PER_GAME"
        and st: "encode_step e fname file_extension file_bytes st = Inr (eof_reached, st')"
      show "file_bit_index st' = file_bit_index st + max_binary_length e file_bytes st"
        using st encode_step_play_eq[OF lt st] by (auto simp: push_chunk_fields(1))
    }
    {
      assume "MAX_MOVES_PER_GAME \<le> moves_in_current_game st" "headers_ok fname file_extension"
      from encode_step_cap[OF this]
      show "\<exists>st'. encode_step e fname file_extension file_bytes st = Inr (False, st')" by blast
    }
    {
      fix eof_reached st'
      assume ge: "MAX_MOVES_PER_GAME \<le> moves_in_current_game st"
        and st: "encode_step e fname file_extension file_bytes st = Inr (eof_reached, st')"
      note eq = encode_step_cap_eq[OF ge st]
      show "\<not> eof_reached" using st eq by simp
      show "file_bit_index st' = file_bit_index st" using st eq by auto
      show "moves_in_current_game st' < MAX_MOVES_PER_GAME"
        using st eq by (auto simp: MAX_MOVES_PER_GAME_def)
    }
  qed
  show ?thesis using some good bad tops by blast
qed

lemma plain_names_ok:
  "headers_ok ''k.txt'' ''txt''" "headers_ok ''a.txt'' ''txt''" "headers_ok ''z.bin'' ''bin''"
  "headers_ok ''ab.txt'' ''txt''"
  by code_simp+

lemma line_break_name_raises:
  "encode (fixed_engine opening_moves) [CHR ''a'', CHR 0x0A, CHR ''b''] ''txt'' [0x41] = Some (Inl Header_Error)"
  by code_simp

theorem encode_terminates_witness:
  "2 \<le> length (legal_moves (fixed_engine opening_moves) (start (fixed_engine opening_moves))) \<and>
   [0x4B :: byte] \<noteq> [] \<and> headers_ok ''k.txt'' ''txt'' \<and>
   (\<exists>r. encode (fixed_engine opening_moves) ''k.txt'' ''txt'' [0x4B] = Some (Inr r))"
proof -
  have h1: "2 \<le> length (legal_moves (fixed_engine opening_moves) (start (fixed_engine opening_moves)))"
    by (simp add: opening_moves_facts)
  have h2: "[0x4B :: byte] \<noteq> []" by simp
  from encode_terminates[OF h1 h2, of "''k.txt''" "''txt''"] plain_names_ok(1)
  have "\<exists>r. encode (fixed_engine opening_moves) ''k.txt'' ''txt'' [0x4B] = Some (Inr r)" by blast
  then show ?thesis using h1 h2 plain_names_ok(1) by blast
qed

text \<open>
  C1. With a rules engine as above whose move strings are free of whitespace, and a file
  name and extension free of line breaks, if at no
  pass of the encode loop that pushes a move the bits remaining in the file are fewer than
  \<open>floor(log2(|legal moves|))\<close>, then \<^verbatim>\<open>encode\<close> returns, and \<^verbatim>\<open>decode\<close> run on its games in part
  order (each as the string of its moves joined by blanks), writing to an empty file, leaves
  exactly the original bytes in that file.
\<close>

theorem round_trip:
  assumes "engine_ok e" "uci_ok e" "file_bytes \<noteq> []" "headers_ok fname file_extension"
    and "\<forall>k st. loop_top e fname file_extension file_bytes k = Some st \<longrightarrow>
           moves_in_current_game st < MAX_MOVES_PER_GAME \<longrightarrow>
           int_log2 (length (legal_moves e (chess_board st))) \<le> 8 * length file_bytes - file_bit_index st"
  shows "\<exists>r. encode e fname file_extension file_bytes = Some (Inr r) \<and>
             fst (decode e (map (\<lambda>p. join_sp (mainline p)) (pgn r)) [] metadata) = file_bytes"
proof -
  from decode_encoded[OF assms(1,2,3,4), of "[]" metadata]
  obtain k s r ys od where
    k: "loop_top e fname file_extension file_bytes k = Some s"
    and lt: "moves_in_current_game s < MAX_MOVES_PER_GAME"
    and enc: "encode e fname file_extension file_bytes = Some (Inr r)"
    and dec: "decode e (map (\<lambda>p. join_sp (mainline p)) (pgn r)) [] metadata =
             ([] @ ys, case metadata of None \<Rightarrow> Inl Decode_Error | Some x \<Rightarrow> Inr x)"
    and gb: "file_bits ys @ od = games_bits e (map (\<lambda>p. join_sp (mainline p)) (pgn r))"
    and bits: "games_bits e (map (\<lambda>p. join_sp (mainline p)) (pgn r)) =
             take (file_bit_index s) (file_bits file_bytes) @
             replicate (int_log2 (length (legal_moves e (chess_board s))) - max_binary_length e file_bytes s) (CHR ''0'') @
             drop (file_bit_index s) (file_bits file_bytes)"
    and od: "length od < 8" by blast
  have "int_log2 (length (legal_moves e (chess_board s))) \<le> 8 * length file_bytes - file_bit_index s"
    using assms(5) k lt by blast
  then have "max_binary_length e file_bytes s = int_log2 (length (legal_moves e (chess_board s)))"
    by (simp add: max_binary_length_def)
  then have "file_bits ys @ od = file_bits file_bytes" using gb bits by simp
  then have "ys = file_bytes" using od by (rule bytes_of_whole)
  then show ?thesis using enc dec by simp
qed

lemma opening_run_4B:
  "encode_step (fixed_engine opening_moves) ''k.txt'' ''txt'' [0x4B] (initial_state (fixed_engine opening_moves)) =
     Inr (False, \<lparr>output_pgns = [], file_bit_index = 4, chess_board = [''h2h3''], move_stack = [''h2h3''],
                   moves_in_current_game = Suc 0\<rparr>)"
  "encode_step (fixed_engine opening_moves) ''k.txt'' ''txt'' [0x4B]
     \<lparr>output_pgns = [], file_bit_index = 4, chess_board = [''h2h3''], move_stack = [''h2h3''],
       moves_in_current_game = Suc 0\<rparr> =
     Inr (True, \<lparr>output_pgns = [\<lparr>FileType = ''txt'', FileName = ''k.txt'', PartNumber = ''1'',
                                    mainline = [''h2h3'', ''a2a3'']\<rparr>],
                  file_bit_index = 8, chess_board = [], move_stack = [], moves_in_current_game = 0\<rparr>)"
  by code_simp+

lemma opening_tops_4B:
  assumes "loop_top (fixed_engine opening_moves) ''k.txt'' ''txt'' [0x4B] k = Some st"
  shows "file_bit_index st \<le> 4"
proof -
  consider "k = 0" | "k = Suc 0" | j where "k = Suc (Suc j)" by (cases k rule: nat.exhaust) (auto, metis nat.exhaust)
  then show ?thesis
  proof cases
    case 1
    then show ?thesis using assms by (auto simp: loop_top_def initial_state_def)
  next
    case 2
    then show ?thesis using assms by (auto simp: loop_top_def opening_run_4B(1))
  next
    case 3
    then show ?thesis using assms by (simp add: loop_top_def opening_run_4B)
  qed
qed

theorem round_trip_witness:
  "engine_ok (fixed_engine opening_moves) \<and> uci_ok (fixed_engine opening_moves) \<and> [0x4B :: byte] \<noteq> [] \<and>
   headers_ok ''k.txt'' ''txt'' \<and>
   \<not> (\<exists>k st. loop_top (fixed_engine opening_moves) ''k.txt'' ''txt'' [0x4B] k = Some st \<and>
           moves_in_current_game st < MAX_MOVES_PER_GAME \<and>
           8 * length [0x4B :: byte] - file_bit_index st < int_log2 (length (legal_moves (fixed_engine opening_moves) (chess_board st)))) \<and>
   (\<exists>r. encode (fixed_engine opening_moves) ''k.txt'' ''txt'' [0x4B] = Some (Inr r) \<and>
        fst (decode (fixed_engine opening_moves) (map (\<lambda>p. join_sp (mainline p)) (pgn r)) [] None) = [0x4B])"
proof -
  have w: "int_log2 (length opening_moves) = 4" by code_simp
  have h: "\<forall>k st. loop_top (fixed_engine opening_moves) ''k.txt'' ''txt'' [0x4B] k = Some st \<longrightarrow>
           moves_in_current_game st < MAX_MOVES_PER_GAME \<longrightarrow>
           int_log2 (length (legal_moves (fixed_engine opening_moves) (chess_board st))) \<le> 8 * length [0x4B :: byte] - file_bit_index st"
    using opening_tops_4B by (fastforce simp: w)
  have ne: "[0x4B :: byte] \<noteq> []" by simp
  have n: "\<not> (\<exists>k st. loop_top (fixed_engine opening_moves) ''k.txt'' ''txt'' [0x4B] k = Some st \<and>
           moves_in_current_game st < MAX_MOVES_PER_GAME \<and>
           8 * length [0x4B :: byte] - file_bit_index st < int_log2 (length (legal_moves (fixed_engine opening_moves) (chess_board st))))"
    using h by (meson not_less)
  from round_trip[OF opening_engine_ok ne plain_names_ok(1) h, of None] opening_engine_ok ne n
    plain_names_ok(1) show ?thesis
    by blast
qed

lemma opening_run_41:
  "encode_step (fixed_engine opening_moves) ''a.txt'' ''txt'' [0x41] (initial_state (fixed_engine opening_moves)) =
     Inr (False, \<lparr>output_pgns = [], file_bit_index = 4, chess_board = [''h2h3''], move_stack = [''h2h3''],
                   moves_in_current_game = Suc 0\<rparr>)"
  "loop_top (fixed_engine opening_moves) ''a.txt'' ''txt'' [0x41] (Suc 0) =
     Some \<lparr>output_pgns = [], file_bit_index = 4, chess_board = [''h2h3''], move_stack = [''h2h3''],
            moves_in_current_game = Suc 0\<rparr>"
  "encode_step (fixed_engine opening_moves) ''a.txt'' ''txt'' [0x41]
     \<lparr>output_pgns = [], file_bit_index = 4, chess_board = [''h2h3''], move_stack = [''h2h3''],
       moves_in_current_game = Suc 0\<rparr> =
     Inr (True, \<lparr>output_pgns = [\<lparr>FileType = ''txt'', FileName = ''a.txt'', PartNumber = ''1'',
                                    mainline = [''h2h3'', ''g1f3'']\<rparr>],
                  file_bit_index = 8, chess_board = [], move_stack = [], moves_in_current_game = 0\<rparr>)"
  by code_simp+

text \<open>
  C5. With a rules engine as above, at every pass of the encode loop the running game has
  at most 100 moves, and the pass emits a game exactly when the running game has 100 moves,
  or the position after the move it pushes has at most one legal move, insufficient
  material or a claimable draw, or the end of the file is reached with that move; no pass
  emits more than one. The emitted game carries the file's extension and name, the next
  number as \<^verbatim>\<open>PartNumber\<close>, and the moves of the running game. The games \<^verbatim>\<open>encode\<close> returns
  are numbered \<open>1, 2, 3, ...\<close> in order.
\<close>

theorem part_closing:
  assumes "engine_ok e" "file_bytes \<noteq> []"
  shows "(\<forall>k st eof_reached st'.
            loop_top e fname file_extension file_bytes k = Some st \<longrightarrow>
            encode_step e fname file_extension file_bytes st = Inr (eof_reached, st') \<longrightarrow>
            moves_in_current_game st \<le> MAX_MOVES_PER_GAME \<and>
            output_pgns st' =
              (if part_closes e file_bytes st
               then output_pgns st @
                      [\<lparr>FileType = file_extension, FileName = fname,
                        PartNumber = str_nat (length (output_pgns st) + 1),
                        mainline = (if moves_in_current_game st = MAX_MOVES_PER_GAME then move_stack st
                                    else move_stack st @ [selected_move e file_bytes st])\<rparr>]
               else output_pgns st)) \<and>
         (\<forall>r. encode e fname file_extension file_bytes = Some (Inr r) \<longrightarrow>
            map PartNumber (pgn r) = map str_nat [1..<Suc (length (pgn r))] \<and> game_count r = length (pgn r))"
proof (intro conjI allI impI)
  have start: "2 \<le> length (legal_moves e (start e))" using assms(1) by (simp add: engine_ok_def)
  fix k st eof_reached st'
  assume top: "loop_top e fname file_extension file_bytes k = Some st"
    and step: "encode_step e fname file_extension file_bytes st = Inr (eof_reached, st')"
  have inv: "enc_inv e file_bytes st" by (rule loop_top_inv[OF start assms(2) top])
  then show le: "moves_in_current_game st \<le> MAX_MOVES_PER_GAME" by (simp add: enc_inv_def)
  show "output_pgns st' =
              (if part_closes e file_bytes st
               then output_pgns st @
                      [\<lparr>FileType = file_extension, FileName = fname,
                        PartNumber = str_nat (length (output_pgns st) + 1),
                        mainline = (if moves_in_current_game st = MAX_MOVES_PER_GAME then move_stack st
                                    else move_stack st @ [selected_move e file_bytes st])\<rparr>]
               else output_pgns st)"
  proof (cases "moves_in_current_game st = MAX_MOVES_PER_GAME")
    case True
    then have "st' = close_state e fname file_extension st"
      using step encode_step_cap_eq[OF _ step] by simp
    then show ?thesis using True by (simp add: part_closes_def)
  next
    case False
    then have lt: "moves_in_current_game st < MAX_MOVES_PER_GAME" using le by simp
    have ok: "step_ok e file_bytes st" by (rule step_okI[OF assms(1) inv lt])
    have ne: "legal_moves e (chess_board st) \<noteq> []" using inv by (auto simp: enc_inv_def)
    show ?thesis
      using step False lt
      by (auto simp: encode_step_play_eq[OF lt step] push_chunk_ok[OF ok] part_closes_def game_over_def Let_def)
  qed
next
  have start: "2 \<le> length (legal_moves e (start e))" using assms(1) by (simp add: engine_ok_def)
  fix r
  assume enc: "encode e fname file_extension file_bytes = Some (Inr r)"
  have hok: "headers_ok fname file_extension"
    using enc encode_bad_headers[OF start assms(2), of fname file_extension] by auto
  from encode_weak[OF start assms(2) hok] obtain s r0 where
    s: "enc_inv e file_bytes s" "encode_step e fname file_extension file_bytes s = Inr (True, r0)"
    "encode_loop e fname file_extension file_bytes (initial_state e) = Some (Inr r0)" by blast
  have r: "pgn r = output_pgns r0" "game_count r = length (output_pgns r0)"
    using enc encode_result[OF s(3) assms(2)] by auto
  have "numbered (output_pgns s)" using s(1) by (simp add: enc_inv_def)
  then have "numbered (output_pgns r0)"
    unfolding encode_step_final(3)[OF s(1,2)] by (simp add: numbered_snoc push_chunk_fields(2))
  then show "map PartNumber (pgn r) = map str_nat [1..<Suc (length (pgn r))]"
    unfolding r by (simp add: numbered_def)
  show "game_count r = length (pgn r)" using r by simp
qed

theorem part_closing_witness:
  "engine_ok (fixed_engine opening_moves) \<and> [0x41 :: byte] \<noteq> [] \<and>
   loop_top (fixed_engine opening_moves) ''a.txt'' ''txt'' [0x41] (Suc 0) =
     Some \<lparr>output_pgns = [], file_bit_index = 4, chess_board = [''h2h3''], move_stack = [''h2h3''],
            moves_in_current_game = Suc 0\<rparr> \<and>
   part_closes (fixed_engine opening_moves) [0x41]
     \<lparr>output_pgns = [], file_bit_index = 4, chess_board = [''h2h3''], move_stack = [''h2h3''],
       moves_in_current_game = Suc 0\<rparr> \<and>
   (\<exists>eof_reached st'.
      encode_step (fixed_engine opening_moves) ''a.txt'' ''txt'' [0x41]
        \<lparr>output_pgns = [], file_bit_index = 4, chess_board = [''h2h3''], move_stack = [''h2h3''],
          moves_in_current_game = Suc 0\<rparr> = Inr (eof_reached, st') \<and>
      output_pgns st' = [\<lparr>FileType = ''txt'', FileName = ''a.txt'', PartNumber = ''1'',
                          mainline = [''h2h3'', ''g1f3'']\<rparr>])"
proof -
  let ?E = "fixed_engine opening_moves"
  let ?s = "\<lparr>output_pgns = [], file_bit_index = 4, chess_board = [''h2h3''], move_stack = [''h2h3''],
            moves_in_current_game = Suc 0\<rparr> :: string list enc_state"
  have ne: "[0x41 :: byte] \<noteq> []" by simp
  have c: "part_closes ?E [0x41] ?s" by code_simp
  have m: "selected_move ?E [0x41] ?s = ''g1f3''" by code_simp
  have n: "str_nat (Suc 0) = ''1''" by code_simp
  obtain fin st' where st: "encode_step ?E ''a.txt'' ''txt'' [0x41] ?s = Inr (fin, st')"
    using opening_run_41(3) by blast
  from part_closing[OF opening_engine_ok(1) ne, of "''a.txt''" "''txt''"] opening_run_41(2) st
  have "output_pgns st' = [\<lparr>FileType = ''txt'', FileName = ''a.txt'', PartNumber = ''1'',
                          mainline = [''h2h3'', ''g1f3'']\<rparr>]"
    using c m n by (simp add: MAX_MOVES_PER_GAME_def)
  then show ?thesis using opening_engine_ok(1) ne opening_run_41(2) c st by blast
qed

text \<open>
  C6. With a rules engine as above, at every pass of the encode loop that is not a
  100-move close, with \<open>w\<close> the smaller of \<open>floor(log2(|legal moves|))\<close> and the number of bits
  remaining, the dict built from the legal moves holds exactly the moves at the ordinal
  indices below \<open>2 ^ w\<close> (there are that many), each with \<^verbatim>\<open>to_binary_string(i, w)\<close>, which has
  \<open>w\<close> characters; no bit string and no move occurs twice in it.
\<close>

theorem move_bits_injective:
  assumes "engine_ok e" "file_bytes \<noteq> []"
    and "loop_top e fname file_extension file_bytes k = Some st"
    and "moves_in_current_game st < MAX_MOVES_PER_GAME"
  shows "let ms = legal_moves e (chess_board st);
             w = min (int_log2 (length ms)) (8 * length file_bytes - file_bit_index st);
             move_bits = build_move_bits w 0 ms []
         in max_binary_length e file_bytes st = w \<and> 2 ^ w \<le> length ms \<and>
            move_bits = map (\<lambda>i. (ms ! i, to_binary_string i w)) [0..<2 ^ w] \<and>
            (\<forall>i < 2 ^ w. length (to_binary_string i w) = w) \<and>
            distinct (map snd move_bits) \<and> distinct (map fst move_bits)"
proof -
  let ?ms = "legal_moves e (chess_board st)"
  let ?w = "max_binary_length e file_bytes st"
  have start: "2 \<le> length (legal_moves e (start e))" using assms(1) by (simp add: engine_ok_def)
  have inv: "enc_inv e file_bytes st" by (rule loop_top_inv[OF start assms(2,3)])
  have i: "file_bit_index st < 8 * length file_bytes" and l: "2 \<le> length ?ms"
    using inv by (auto simp: enc_inv_def)
  have d: "distinct ?ms" using assms(1) by (simp add: engine_ok_def)
  have w: "0 < ?w" by (rule width_facts(1)[OF i l])
  have p: "2 ^ ?w \<le> length ?ms" by (rule width_facts(3)[OF i l])
  have eq: "build_move_bits ?w 0 ?ms [] = map (\<lambda>i. (?ms ! i, to_binary_string i ?w)) [0..<2 ^ ?w]"
    by (rule build_move_bits_eq[OF w d p])
  have len: "\<forall>i < 2 ^ ?w. length (to_binary_string i ?w) = ?w"
    using length_to_binary_string_eq[OF w] by blast
  have "inj_on (\<lambda>i. to_binary_string i ?w) {0..<2 ^ ?w}"
    by (rule inj_onI) (rule to_binary_string_inj)
  then have ds: "distinct (map snd (build_move_bits ?w 0 ?ms []))"
    unfolding eq by (simp add: distinct_map comp_def)
  have "inj_on (\<lambda>i. ?ms ! i) {0..<2 ^ ?w}"
    using d p by (auto simp: inj_on_def nth_eq_iff_index_eq)
  then have df: "distinct (map fst (build_move_bits ?w 0 ?ms []))"
    unfolding eq by (simp add: distinct_map comp_def)
  show ?thesis
    unfolding Let_def max_binary_length_def[symmetric] using p eq len ds df by simp
qed

theorem move_bits_injective_witness:
  "engine_ok (fixed_engine opening_moves) \<and> [0x41 :: byte] \<noteq> [] \<and>
   loop_top (fixed_engine opening_moves) ''a.txt'' ''txt'' [0x41] (Suc 0) =
     Some \<lparr>output_pgns = [], file_bit_index = 4, chess_board = [''h2h3''], move_stack = [''h2h3''],
            moves_in_current_game = Suc 0\<rparr> \<and>
   Suc 0 < MAX_MOVES_PER_GAME \<and>
   build_move_bits 4 0 opening_moves [] = map (\<lambda>i. (opening_moves ! i, to_binary_string i 4)) [0..<2 ^ 4] \<and>
   distinct (map snd (build_move_bits 4 0 opening_moves []))"
proof -
  let ?E = "fixed_engine opening_moves"
  let ?s = "\<lparr>output_pgns = [], file_bit_index = 4, chess_board = [''h2h3''], move_stack = [''h2h3''],
            moves_in_current_game = Suc 0\<rparr> :: string list enc_state"
  have ne: "[0x41 :: byte] \<noteq> []" by simp
  have lt: "moves_in_current_game ?s < MAX_MOVES_PER_GAME" by (simp add: MAX_MOVES_PER_GAME_def)
  have w: "min (int_log2 (length opening_moves)) (8 * length [0x41 :: byte] - file_bit_index ?s) = 4"
    by code_simp
  note G = move_bits_injective[OF opening_engine_ok(1) ne opening_run_41(2) lt, unfolded Let_def w fixed_engine_simps]
  from G have "build_move_bits 4 0 opening_moves [] = map (\<lambda>i. (opening_moves ! i, to_binary_string i 4)) [0..<2 ^ 4]"
    and "distinct (map snd (build_move_bits 4 0 opening_moves []))" by blast+
  moreover have "Suc 0 < MAX_MOVES_PER_GAME" by (simp add: MAX_MOVES_PER_GAME_def)
  ultimately show ?thesis using opening_engine_ok(1) ne opening_run_41(2) by blast
qed

text \<open>
  C9. With a rules engine as above, at every pass of the encode loop that is not a
  100-move close the width \<open>w\<close> is at least 1, the chunk taken from the two-byte pool is
  the next \<open>w\<close> bits of the file and has \<open>w\<close> characters, exactly one item of the dict has the
  chunk as its bit string, and so the pass pushes exactly one move (the one whose ordinal
  index the chunk spells) and then advances the pointer by \<open>w\<close>.
\<close>

theorem one_move_per_chunk:
  assumes "engine_ok e" "file_bytes \<noteq> []"
    and "loop_top e fname file_extension file_bytes k = Some st"
    and "moves_in_current_game st < MAX_MOVES_PER_GAME"
  shows "let w = max_binary_length e file_bytes st;
             chunk = next_file_chunk file_bytes (file_bit_index st) w;
             move_bits = build_move_bits w 0 (legal_moves e (chess_board st)) [];
             st' = push_chunk e file_bytes st
         in 0 < w \<and> chunk = take w (drop (file_bit_index st) (file_bits file_bytes)) \<and> length chunk = w \<and>
            (\<exists>!item. item \<in> set move_bits \<and> snd item = chunk) \<and>
            find_move move_bits chunk = Some (selected_move e file_bytes st) \<and>
            chess_board st' = push e (chess_board st) (selected_move e file_bytes st) \<and>
            move_stack st' = move_stack st @ [selected_move e file_bytes st] \<and>
            moves_in_current_game st' = Suc (moves_in_current_game st) \<and>
            file_bit_index st' = file_bit_index st + w"
proof -
  let ?ms = "legal_moves e (chess_board st)"
  let ?w = "max_binary_length e file_bytes st"
  let ?chunk = "next_file_chunk file_bytes (file_bit_index st) ?w"
  let ?mb = "build_move_bits ?w 0 ?ms []"
  have start: "2 \<le> length (legal_moves e (start e))" using assms(1) by (simp add: engine_ok_def)
  have inv: "enc_inv e file_bytes st" by (rule loop_top_inv[OF start assms(2,3)])
  have ok: "step_ok e file_bytes st" by (rule step_okI[OF assms(1) inv assms(4)])
  have i: "file_bit_index st < 8 * length file_bytes" and l: "2 \<le> length ?ms"
    using inv by (auto simp: enc_inv_def)
  have d: "distinct ?ms" using assms(1) by (simp add: engine_ok_def)
  have w: "0 < ?w" by (rule width_facts(1)[OF i l])
  have p: "2 ^ ?w \<le> length ?ms" by (rule width_facts(3)[OF i l])
  have eq: "?mb = map (\<lambda>i. (?ms ! i, to_binary_string i ?w)) [0..<2 ^ ?w]"
    by (rule build_move_bits_eq[OF w d p])
  note found = selected_move_found[OF ok]
  have one: "\<exists>!item. item \<in> set ?mb \<and> snd item = ?chunk"
  proof (rule ex_ex1I)
    have "?chunk \<in> snd ` set ?mb" using found find_move_None[of ?mb ?chunk] by auto
    then show "\<exists>item. item \<in> set ?mb \<and> snd item = ?chunk" by auto
  next
    fix x y
    assume x: "x \<in> set ?mb \<and> snd x = ?chunk" and y: "y \<in> set ?mb \<and> snd y = ?chunk"
    from x obtain a where a: "x = (?ms ! a, to_binary_string a ?w)" unfolding eq by auto
    from y obtain b where b: "y = (?ms ! b, to_binary_string b ?w)" unfolding eq by auto
    have "to_binary_string a ?w = to_binary_string b ?w" using x y a b by simp
    then have "a = b" by (rule to_binary_string_inj)
    then show "x = y" using a b by simp
  qed
  show ?thesis
    unfolding Let_def
    using w chunk_facts(1,2)[OF ok] one found by (simp add: push_chunk_ok[OF ok])
qed

theorem one_move_per_chunk_witness:
  "engine_ok (fixed_engine opening_moves) \<and> [0x41 :: byte] \<noteq> [] \<and>
   loop_top (fixed_engine opening_moves) ''a.txt'' ''txt'' [0x41] (Suc 0) =
     Some \<lparr>output_pgns = [], file_bit_index = 4, chess_board = [''h2h3''], move_stack = [''h2h3''],
            moves_in_current_game = Suc 0\<rparr> \<and>
   Suc 0 < MAX_MOVES_PER_GAME \<and>
   next_file_chunk [0x41] 4 4 = ''0001'' \<and>
   find_move (build_move_bits 4 0 opening_moves []) ''0001'' = Some ''g1f3'' \<and>
   move_stack (push_chunk (fixed_engine opening_moves) [0x41]
     \<lparr>output_pgns = [], file_bit_index = 4, chess_board = [''h2h3''], move_stack = [''h2h3''],
       moves_in_current_game = Suc 0\<rparr>) = [''h2h3''] @ [''g1f3'']"
proof -
  let ?E = "fixed_engine opening_moves"
  let ?s = "\<lparr>output_pgns = [], file_bit_index = 4, chess_board = [''h2h3''], move_stack = [''h2h3''],
            moves_in_current_game = Suc 0\<rparr> :: string list enc_state"
  have ne: "[0x41 :: byte] \<noteq> []" by simp
  have lt: "moves_in_current_game ?s < MAX_MOVES_PER_GAME" by (simp add: MAX_MOVES_PER_GAME_def)
  have w: "max_binary_length ?E [0x41] ?s = 4" by code_simp
  have c: "next_file_chunk [0x41] 4 4 = ''0001''" by code_simp
  have m: "selected_move ?E [0x41] ?s = ''g1f3''" by code_simp
  note G = one_move_per_chunk[OF opening_engine_ok(1) ne opening_run_41(2) lt,
      unfolded Let_def w enc_state.simps c m fixed_engine_simps]
  from G have "find_move (build_move_bits 4 0 opening_moves []) ''0001'' = Some ''g1f3''"
    and "move_stack (push_chunk ?E [0x41] ?s) = [''h2h3''] @ [''g1f3'']" by blast+
  moreover have "Suc 0 < MAX_MOVES_PER_GAME" by (simp add: MAX_MOVES_PER_GAME_def)
  ultimately show ?thesis using opening_engine_ok(1) ne opening_run_41(2) c by blast
qed

text \<open>
  C7, as stated: for every input of \<^verbatim>\<open>decode\<close> the number of bytes written is the sum of the
  widths \<open>floor(log2(|legal moves|))\<close> of its moves, divided by 8 and rounded down. It fails
  for eight games that each consist of the last of the twenty opening moves: its ordinal
  index 19 has five binary digits, \<^verbatim>\<open>zfill\<close> does not shorten them to the width 4, and the
  forty bits give five bytes where the widths sum to 32.
\<close>

theorem decode_length_counterexample:
  "decode (fixed_engine opening_moves)
     [''a2a4'', ''a2a4'', ''a2a4'', ''a2a4'', ''a2a4'', ''a2a4'', ''a2a4'', ''a2a4''] [] (Some ''txt'') =
     ([0x9C, 0xE7, 0x39, 0xCE, 0x73], Inr ''txt'') \<and>
   total_width (fixed_engine opening_moves)
     [''a2a4'', ''a2a4'', ''a2a4'', ''a2a4'', ''a2a4'', ''a2a4'', ''a2a4'', ''a2a4''] = 32 \<and>
   length (fst (decode (fixed_engine opening_moves)
     [''a2a4'', ''a2a4'', ''a2a4'', ''a2a4'', ''a2a4'', ''a2a4'', ''a2a4'', ''a2a4''] [] (Some ''txt''))) \<noteq>
   total_width (fixed_engine opening_moves)
     [''a2a4'', ''a2a4'', ''a2a4'', ''a2a4'', ''a2a4'', ''a2a4'', ''a2a4'', ''a2a4''] div 8"
  by code_simp

text \<open>
  C7, amended: when every move of the input is legal where it is played, the width there
  is at least 1 and the ordinal index of the move is below \<open>2 ^ width\<close> (as for every move
  \<^verbatim>\<open>encode\<close> pushes), \<^verbatim>\<open>decode\<close> appends to the file exactly the complete bytes of the
  concatenated bit strings, fewer than 8 bits are left in the accumulator and dropped, and
  the number of bytes appended is the sum of the widths divided by 8, rounded down.
\<close>

theorem decode_length:
  assumes "\<forall>moves \<in> set moves_list. addressable e (start e) (split_ws moves)"
  shows "\<exists>ys od. decode e moves_list file0 metadata =
                  (file0 @ ys, case metadata of None \<Rightarrow> Inl Decode_Error | Some x \<Rightarrow> Inr x) \<and>
                file_bits ys @ od = games_bits e moves_list \<and> length od < 8 \<and>
                length ys = total_width e moves_list div 8"
proof -
  have v: "\<forall>moves \<in> set moves_list. valid_line e (start e) (split_ws moves)"
    using assms by (auto intro: addressable_valid)
  from decode_valid[OF v, of file0 metadata] obtain ys od where
    d: "decode e moves_list file0 metadata =
          (file0 @ ys, case metadata of None \<Rightarrow> Inl Decode_Error | Some x \<Rightarrow> Inr x)"
    "file_bits ys @ od = games_bits e moves_list" "length od < 8" by blast
  have "length ys = length (games_bits e moves_list) div 8" by (rule bytes_count[OF d(2,3)])
  then have "length ys = total_width e moves_list div 8" by (simp add: total_width_length[OF assms])
  then show ?thesis using d by blast
qed

theorem decode_length_witness:
  "list_all (\<lambda>moves. addressable (fixed_engine opening_moves) (start (fixed_engine opening_moves)) (split_ws moves))
     [''h2h3 g1f3'', ''e2e4''] \<and>
   total_width (fixed_engine opening_moves) [''h2h3 g1f3'', ''e2e4''] = 12 \<and>
   (\<exists>ys od. decode (fixed_engine opening_moves) [''h2h3 g1f3'', ''e2e4''] [] (Some ''txt'') = (ys, Inr ''txt'') \<and>
      file_bits ys @ od = games_bits (fixed_engine opening_moves) [''h2h3 g1f3'', ''e2e4''] \<and>
      length od < 8 \<and> length ys = 1)"
proof -
  let ?E = "fixed_engine opening_moves"
  have a: "list_all (\<lambda>moves. addressable ?E (start ?E) (split_ws moves)) [''h2h3 g1f3'', ''e2e4'']"
    by code_simp
  then have h: "\<forall>moves \<in> set [''h2h3 g1f3'', ''e2e4'']. addressable ?E (start ?E) (split_ws moves)"
    by (simp add: list_all_iff)
  have t: "total_width ?E [''h2h3 g1f3'', ''e2e4''] = 12" by code_simp
  from decode_length[OF h, of "[]" "Some ''txt''"] obtain ys od where
    "decode ?E [''h2h3 g1f3'', ''e2e4''] [] (Some ''txt'') = ([] @ ys, Inr ''txt'')"
    "file_bits ys @ od = games_bits ?E [''h2h3 g1f3'', ''e2e4'']" "length od < 8"
    "length ys = total_width ?E [''h2h3 g1f3'', ''e2e4''] div 8" by auto
  then have "decode ?E [''h2h3 g1f3'', ''e2e4''] [] (Some ''txt'') = (ys, Inr ''txt'') \<and>
      file_bits ys @ od = games_bits ?E [''h2h3 g1f3'', ''e2e4''] \<and> length od < 8 \<and> length ys = 1"
    by (simp add: t)
  then show ?thesis using a t by blast
qed

lemma int_log2_lt_8: "0 < n \<Longrightarrow> n < 256 \<Longrightarrow> int_log2 n < 8"
  by (rule int_log2_less) simp_all

lemma split_bytes_bits:
  assumes "8 * a + b = 8 * n + d" "b < 8" "d < 8"
  shows "a = n \<and> b = (d::nat)"
proof -
  have "(8 * a + b) div 8 = a" "(8 * n + d) div 8 = n" using assms(2,3) by simp_all
  then have "a = n" using assms(1) by simp
  then show ?thesis using assms(1) by simp
qed

lemma final_pass:
  assumes "enc_inv e bs st" "moves_in_current_game st < MAX_MOVES_PER_GAME"
    and "file_bit_index st + max_binary_length e bs st = 8 * length bs"
    and "headers_ok fn ext"
  shows "\<exists>r. encode_step e fn ext bs st = Inr (True, r)"
proof -
  have "legal_moves e (chess_board st) \<noteq> []" using assms(1) by (auto simp: enc_inv_def)
  from encode_step_play[OF assms(2) this assms(4), of bs] show ?thesis using assms(3) by simp
qed

lemma eight_run_00:
  "loop_top (fixed_engine (take 8 opening_moves)) ''z.bin'' ''bin'' [0x00] 2 =
     Some \<lparr>output_pgns = [], file_bit_index = 6, chess_board = [''g1h3'', ''g1h3''],
            move_stack = [''g1h3'', ''g1h3''], moves_in_current_game = 2\<rparr>"
  "loop_top (fixed_engine (take 8 opening_moves)) ''z.bin'' ''bin'' [0x01] 2 =
     Some \<lparr>output_pgns = [], file_bit_index = 6, chess_board = [''g1h3'', ''g1h3''],
            move_stack = [''g1h3'', ''g1h3''], moves_in_current_game = 2\<rparr>"
  by code_simp+

text \<open>
  C2, as stated: whenever the last move is encoded with a clamped width, the decoded
  output differs from the original file. It fails for the one-byte file \<open>0x00\<close> and an
  engine that offers eight moves everywhere (width 3): the third pass starts at bit 6 with
  2 bits left, so its width is clamped from 3 to 2; \<^verbatim>\<open>decode\<close> emits \<open>000\<close> for that move
  instead of \<open>00\<close>, and the first eight of its nine bits are still the original byte.
\<close>

theorem clamped_tail_counterexample:
  "loop_top (fixed_engine (take 8 opening_moves)) ''z.bin'' ''bin'' [0x00] 2 =
     Some \<lparr>output_pgns = [], file_bit_index = 6, chess_board = [''g1h3'', ''g1h3''],
            move_stack = [''g1h3'', ''g1h3''], moves_in_current_game = 2\<rparr> \<and>
   int_log2 (length (legal_moves (fixed_engine (take 8 opening_moves)) [''g1h3'', ''g1h3''])) = 3 \<and>
   max_binary_length (fixed_engine (take 8 opening_moves)) [0x00]
     \<lparr>output_pgns = [], file_bit_index = 6, chess_board = [''g1h3'', ''g1h3''],
       move_stack = [''g1h3'', ''g1h3''], moves_in_current_game = 2\<rparr> = 2 \<and>
   encode (fixed_engine (take 8 opening_moves)) ''z.bin'' ''bin'' [0x00] =
     Some (Inr \<lparr>pgn = [\<lparr>FileType = ''bin'', FileName = ''z.bin'', PartNumber = ''1'',
                          mainline = [''g1h3'', ''g1h3'', ''g1h3'']\<rparr>],
                 file_name = ''z.bin'', pending_game = True, game_count = 1, move_counts = [3]\<rparr>) \<and>
   join_sp [''g1h3'', ''g1h3'', ''g1h3''] = ''g1h3 g1h3 g1h3'' \<and>
   decode (fixed_engine (take 8 opening_moves)) [''g1h3 g1h3 g1h3''] [] (Some ''bin'') = ([0x00], Inr ''bin'')"
  by code_simp

text \<open>
  C2, amended: with a rules engine as above and a file name and extension free of line
  breaks, when a pass of the encode loop that pushes a
  move has fewer bits left in the file than \<open>floor(log2(|legal moves|))\<close>, \<^verbatim>\<open>encode\<close> still
  returns, and \<^verbatim>\<open>decode\<close> reads the games with the unclamped width: its bit string is the file's
  with zeros inserted in front of the last, clamped bits. The decoded output has as many
  bytes as the original, and it differs from the original exactly when those last bits of
  the file are not all zero.
\<close>

theorem clamped_tail:
  assumes eng: "engine_ok e" and uci: "uci_ok e" and ne: "file_bytes \<noteq> []"
    and hok: "headers_ok fname file_extension"
    and top: "loop_top e fname file_extension file_bytes k = Some st"
    and lt: "moves_in_current_game st < MAX_MOVES_PER_GAME"
    and clamp: "8 * length file_bytes - file_bit_index st < int_log2 (length (legal_moves e (chess_board st)))"
  shows "\<exists>r. encode e fname file_extension file_bytes = Some (Inr r) \<and>
           games_bits e (map (\<lambda>p. join_sp (mainline p)) (pgn r)) =
             take (file_bit_index st) (file_bits file_bytes) @
             replicate (int_log2 (length (legal_moves e (chess_board st))) -
                        (8 * length file_bytes - file_bit_index st)) (CHR ''0'') @
             drop (file_bit_index st) (file_bits file_bytes) \<and>
           length (fst (decode e (map (\<lambda>p. join_sp (mainline p)) (pgn r)) [] metadata)) = length file_bytes \<and>
           (fst (decode e (map (\<lambda>p. join_sp (mainline p)) (pgn r)) [] metadata) \<noteq> file_bytes) =
           (drop (file_bit_index st) (file_bits file_bytes) \<noteq>
              replicate (8 * length file_bytes - file_bit_index st) (CHR ''0''))"
proof -
  let ?B = "file_bits file_bytes"
  let ?n = "length file_bytes"
  let ?i = "file_bit_index st"
  let ?wd = "int_log2 (length (legal_moves e (chess_board st)))"
  have start: "2 \<le> length (legal_moves e (start e))" using eng by (simp add: engine_ok_def)
  have inv: "enc_inv e file_bytes st" by (rule loop_top_inv[OF start ne top])
  have i: "?i < 8 * ?n" and l: "2 \<le> length (legal_moves e (chess_board st))"
    using inv by (auto simp: enc_inv_def)
  have w: "max_binary_length e file_bytes st = 8 * ?n - ?i"
    using clamp by (simp add: max_binary_length_def)
  then have last: "?i + max_binary_length e file_bytes st = 8 * ?n" using i by simp
  from final_pass[OF inv lt last hok] obtain r1 where
    r1: "encode_step e fname file_extension file_bytes st = Inr (True, r1)" by blast
  from decode_encoded[OF eng uci ne hok, of "[]" metadata]
  obtain k' s r ys od where
    k': "loop_top e fname file_extension file_bytes k' = Some s"
    and invs: "enc_inv e file_bytes s" and lts: "moves_in_current_game s < MAX_MOVES_PER_GAME"
    and lasts: "file_bit_index s + max_binary_length e file_bytes s = 8 * ?n"
    and enc: "encode e fname file_extension file_bytes = Some (Inr r)"
    and dec: "decode e (map (\<lambda>p. join_sp (mainline p)) (pgn r)) [] metadata =
             ([] @ ys, case metadata of None \<Rightarrow> Inl Decode_Error | Some x \<Rightarrow> Inr x)"
    and gb: "file_bits ys @ od = games_bits e (map (\<lambda>p. join_sp (mainline p)) (pgn r))"
    and bits: "games_bits e (map (\<lambda>p. join_sp (mainline p)) (pgn r)) =
             take (file_bit_index s) ?B @
             replicate (int_log2 (length (legal_moves e (chess_board s))) - max_binary_length e file_bytes s) (CHR ''0'') @
             drop (file_bit_index s) ?B"
    and od: "length od < 8" by blast
  from final_pass[OF invs lts lasts hok] obtain r2 where
    r2: "encode_step e fname file_extension file_bytes s = Inr (True, r2)" by blast
  have "s = st"
    using encode_iter_final_unique[OF k'[unfolded loop_top_def] r2 top[unfolded loop_top_def] r1] by simp
  note bits' = bits[unfolded \<open>s = st\<close> w]
  let ?d = "?wd - (8 * ?n - ?i)"
  let ?Z = "replicate ?d (CHR ''0'')"
  let ?T = "drop ?i ?B"
  have d0: "0 < ?d" using clamp by simp
  have "length (legal_moves e (chess_board st)) < 256" using eng by (simp add: engine_ok_def)
  then have "?wd < 8" using l by (intro int_log2_lt_8) auto
  then have d8: "?d < 8" by simp
  have lenT: "length ?T = 8 * ?n - ?i" by simp
  have G: "file_bits ys @ od = take ?i ?B @ ?Z @ ?T" using gb bits' by simp
  have "length (file_bits ys @ od) = length (take ?i ?B @ ?Z @ ?T)" using G by simp
  then have "8 * length ys + length od = 8 * ?n + ?d" using i by simp
  from split_bytes_bits[OF this od d8] have lens: "length ys = ?n" "length od = ?d" by simp_all
  have fst: "fst (decode e (map (\<lambda>p. join_sp (mainline p)) (pgn r)) [] metadata) = ys"
    using dec by simp
  have iff: "(ys = file_bytes) = (?T = replicate (8 * ?n - ?i) (CHR ''0''))"
  proof
    assume "ys = file_bytes"
    have "take ?i ?B @ (?T @ od) = ?B @ od" by simp
    also have "\<dots> = take ?i ?B @ (?Z @ ?T)" using G \<open>ys = file_bytes\<close> by simp
    finally have "?T @ od = ?Z @ ?T" by (simp only: same_append_eq)
    then have "take (length ?T) (?T @ od) = take (length ?T) (?Z @ ?T)" by simp
    then have "?T = take (length ?T) (?Z @ ?T)" by simp
    from self_shift[OF this d0] show "?T = replicate (8 * ?n - ?i) (CHR ''0'')" using lenT by simp
  next
    assume T: "?T = replicate (8 * ?n - ?i) (CHR ''0'')"
    have "?Z @ ?T = ?T @ ?Z"
      by (subst (1 2) T) (simp add: replicate_add[symmetric] add.commute)
    then have "take ?i ?B @ ?Z @ ?T = (take ?i ?B @ ?T) @ ?Z" by (simp only: append_assoc)
    then have "file_bits ys @ od = ?B @ ?Z" using G by (simp only: append_take_drop_id)
    moreover have "length (file_bits ys) = length ?B" using lens(1) by simp
    ultimately have "file_bits ys = ?B" using append_eq_append_conv by blast
    then show "ys = file_bytes" by (rule file_bits_inj)
  qed
  have "length (fst (decode e (map (\<lambda>p. join_sp (mainline p)) (pgn r)) [] metadata)) = ?n"
    using lens(1) fst by simp
  moreover have "(fst (decode e (map (\<lambda>p. join_sp (mainline p)) (pgn r)) [] metadata) \<noteq> file_bytes) =
           (?T \<noteq> replicate (8 * ?n - ?i) (CHR ''0''))"
    using iff fst by simp
  ultimately show ?thesis using enc bits' by blast
qed

theorem clamped_tail_witness:
  "engine_ok (fixed_engine (take 8 opening_moves)) \<and> uci_ok (fixed_engine (take 8 opening_moves)) \<and>
   [0x01 :: byte] \<noteq> [] \<and> headers_ok ''z.bin'' ''bin'' \<and>
   loop_top (fixed_engine (take 8 opening_moves)) ''z.bin'' ''bin'' [0x01] 2 =
     Some \<lparr>output_pgns = [], file_bit_index = 6, chess_board = [''g1h3'', ''g1h3''],
            move_stack = [''g1h3'', ''g1h3''], moves_in_current_game = 2\<rparr> \<and>
   2 < MAX_MOVES_PER_GAME \<and>
   8 * length [0x01 :: byte] - 6 < int_log2 (length (take 8 opening_moves)) \<and>
   drop 6 (file_bits [0x01]) \<noteq> replicate 2 (CHR ''0'') \<and>
   (\<exists>r. encode (fixed_engine (take 8 opening_moves)) ''z.bin'' ''bin'' [0x01] = Some (Inr r) \<and>
        length (fst (decode (fixed_engine (take 8 opening_moves)) (map (\<lambda>p. join_sp (mainline p)) (pgn r)) [] None)) = 1 \<and>
        fst (decode (fixed_engine (take 8 opening_moves)) (map (\<lambda>p. join_sp (mainline p)) (pgn r)) [] None) \<noteq> [0x01])"
proof -
  let ?E = "fixed_engine (take 8 opening_moves)"
  let ?s = "\<lparr>output_pgns = [], file_bit_index = 6, chess_board = [''g1h3'', ''g1h3''],
            move_stack = [''g1h3'', ''g1h3''], moves_in_current_game = 2\<rparr> :: string list enc_state"
  have ne: "[0x01 :: byte] \<noteq> []" by simp
  have lt: "moves_in_current_game ?s < MAX_MOVES_PER_GAME" by (simp add: MAX_MOVES_PER_GAME_def)
  have c0: "8 * length [0x01 :: byte] - 6 < int_log2 (length (take 8 opening_moves))" by code_simp
  then have c: "8 * length [0x01 :: byte] - file_bit_index ?s < int_log2 (length (legal_moves ?E (chess_board ?s)))"
    by simp
  have t: "drop 6 (file_bits [0x01]) \<noteq> replicate 2 (CHR ''0'')" by code_simp
  from clamped_tail[OF eight_engine_ok ne plain_names_ok(3) eight_run_00(2) lt c, of None] obtain r where
    r: "encode ?E ''z.bin'' ''bin'' [0x01] = Some (Inr r)"
    "length (fst (decode ?E (map (\<lambda>p. join_sp (mainline p)) (pgn r)) [] None)) = length [0x01 :: byte]"
    "(fst (decode ?E (map (\<lambda>p. join_sp (mainline p)) (pgn r)) [] None) \<noteq> [0x01]) =
       (drop (file_bit_index ?s) (file_bits [0x01]) \<noteq> replicate (8 * length [0x01 :: byte] - file_bit_index ?s) (CHR ''0''))"
    by blast
  have "fst (decode ?E (map (\<lambda>p. join_sp (mainline p)) (pgn r)) [] None) \<noteq> [0x01]"
    using r(3) t by simp
  moreover have "2 < MAX_MOVES_PER_GAME" by (simp add: MAX_MOVES_PER_GAME_def)
  ultimately show ?thesis using eight_engine_ok ne plain_names_ok(3) eight_run_00(2) c0 t r(1,2) by auto
qed

lemma width_four_log: "width_four e b \<Longrightarrow> int_log2 (length (legal_moves e b)) = 4"
  by (rule int_log2_unique) (simp_all add: width_four_def)

lemma width_four_not_over: "width_four e b \<Longrightarrow> no_draw e b \<Longrightarrow> \<not> game_over e b"
  by (simp add: width_four_def no_draw_def game_over_def)

lemma four_bit_pass:
  assumes n: "moves_in_current_game st < MAX_MOVES_PER_GAME"
    and i: "file_bit_index st + 4 \<le> 8 * length bs"
    and wf: "width_four e (chess_board st)"
    and c: "int_of_bin (take 4 (drop (file_bit_index st) (file_bits bs))) = j"
  shows "push_chunk e bs st =
     st\<lparr>chess_board := push e (chess_board st) (legal_moves e (chess_board st) ! j),
        move_stack := move_stack st @ [legal_moves e (chess_board st) ! j],
        moves_in_current_game := Suc (moves_in_current_game st),
        file_bit_index := file_bit_index st + 4\<rparr>"
    and "legal_moves e (chess_board st) \<noteq> []"
    and "max_binary_length e bs st = 4"
proof -
  show w: "max_binary_length e bs st = 4"
    using i by (simp add: max_binary_length_def width_four_log[OF wf])
  have ok: "step_ok e bs st"
    using n i wf by (simp add: step_ok_def width_four_def Let_def)
  have "selected_move e bs st = legal_moves e (chess_board st) ! j"
    using c by (simp add: selected_move_def w chunk_facts(1)[OF ok, unfolded w])
  then show "push_chunk e bs st =
     st\<lparr>chess_board := push e (chess_board st) (legal_moves e (chess_board st) ! j),
        move_stack := move_stack st @ [legal_moves e (chess_board st) ! j],
        moves_in_current_game := Suc (moves_in_current_game st),
        file_bit_index := file_bit_index st + 4\<rparr>"
    by (simp add: push_chunk_ok[OF ok] w)
  show "legal_moves e (chess_board st) \<noteq> []" using wf by (auto simp: width_four_def)
qed

lemma four_bit_line:
  assumes "width_four e b" "j < 16" "m = legal_moves e b ! j"
  shows "m \<in> set (legal_moves e b)"
    and "line_bits e b (m # ms) = zfill (bin_str j) 4 @ line_bits e (push e b m) ms"
proof -
  have l: "j < length (legal_moves e b)" and d: "distinct (legal_moves e b)"
    using assms(1,2) by (simp_all add: width_four_def)
  show "m \<in> set (legal_moves e b)" using l assms(3) by simp
  have "index_of (legal_moves e b) m = Some j" unfolding assms(3) by (rule index_of_nth[OF d l])
  then show "line_bits e b (m # ms) = zfill (bin_str j) 4 @ line_bits e (push e b m) ms"
    by (simp add: width_four_log[OF assms(1)])
qed

lemma bits_41_42:
  "int_of_bin (take 4 (drop 0 (file_bits [0x41, 0x42]))) = 4"
  "int_of_bin (take 4 (drop 4 (file_bits [0x41, 0x42]))) = 1"
  "int_of_bin (take 4 (drop 8 (file_bits [0x41, 0x42]))) = 4"
  "int_of_bin (take 4 (drop 12 (file_bits [0x41, 0x42]))) = 2"
  "zfill (bin_str 4) 4 @ zfill (bin_str 1) 4 @ zfill (bin_str 4) 4 @ zfill (bin_str 2) 4 = file_bits [0x41, 0x42]"
  "str_nat (Suc 0) = ''1''"
  by code_simp+

text \<open>
  C8. Take any rules engine and follow the four moves the bits \<open>0100 0001 0100 0010\<close> select:
  the move of ordinal index 4 at the start, then those of index 1, 4 and 2. If each of the
  four positions passed lists between 16 and 31 moves, none twice, if none of the three
  positions reached before the last move has insufficient material or a claimable draw,
  if the four move strings hold no whitespace (chess, by hand: 20, 20, 19 and 22 moves),
  and if the file's name and extension hold no line break, then \<^verbatim>\<open>encode\<close> of the bytes
  \<open>0x41 0x42\<close> returns one game, of exactly these four moves, and \<^verbatim>\<open>decode\<close> of that game
  writes exactly \<open>0x41 0x42\<close>.
\<close>

theorem encode_0x41_0x42:
  assumes path: "b0 = start e" "m0 = legal_moves e b0 ! 4" "b1 = push e b0 m0"
      "m1 = legal_moves e b1 ! 1" "b2 = push e b1 m1" "m2 = legal_moves e b2 ! 4"
      "b3 = push e b2 m2" "m3 = legal_moves e b3 ! 2"
    and wide: "list_all (width_four e) [b0, b1, b2, b3]"
    and quiet: "list_all (no_draw e) [b1, b2, b3]"
    and toks: "list_all uci_token [m0, m1, m2, m3]"
    and hok: "headers_ok fname file_extension"
  shows "\<exists>r. encode e fname file_extension [0x41, 0x42] = Some (Inr r) \<and> game_count r = 1 \<and>
             map mainline (pgn r) = [[m0, m1, m2, m3]] \<and>
             fst (decode e (map (\<lambda>p. join_sp (mainline p)) (pgn r)) [] metadata) = [0x41, 0x42]"
proof -
  let ?bs = "[0x41, 0x42] :: byte list"
  let ?s0 = "initial_state e"
  let ?s1 = "\<lparr>output_pgns = [], file_bit_index = 4, chess_board = b1, move_stack = [m0],
              moves_in_current_game = Suc 0\<rparr>"
  let ?s2 = "\<lparr>output_pgns = [], file_bit_index = 8, chess_board = b2, move_stack = [m0, m1],
              moves_in_current_game = Suc (Suc 0)\<rparr>"
  let ?s3 = "\<lparr>output_pgns = [], file_bit_index = 12, chess_board = b3, move_stack = [m0, m1, m2],
              moves_in_current_game = Suc (Suc (Suc 0))\<rparr>"
  let ?P = "\<lparr>FileType = file_extension, FileName = fname, PartNumber = ''1'', mainline = [m0, m1, m2, m3]\<rparr>"
  let ?r0 = "\<lparr>output_pgns = [?P], file_bit_index = 16, chess_board = start e, move_stack = [],
              moves_in_current_game = 0\<rparr>"
  have w: "width_four e b0" "width_four e b1" "width_four e b2" "width_four e b3"
    using wide by simp_all
  have q: "\<not> game_over e b1" "\<not> game_over e b2" "\<not> game_over e b3"
    using quiet w by (simp_all add: width_four_not_over)
  have step0: "encode_step e fname file_extension ?bs ?s0 = Inr (False, ?s1)"
  proof -
    have n: "moves_in_current_game ?s0 < MAX_MOVES_PER_GAME"
      by (simp add: initial_state_def MAX_MOVES_PER_GAME_def)
    have i: "file_bit_index ?s0 + 4 \<le> 8 * length ?bs" by (simp add: initial_state_def)
    have wf: "width_four e (chess_board ?s0)" using w(1) path(1) by (simp add: initial_state_def)
    have c: "int_of_bin (take 4 (drop (file_bit_index ?s0) (file_bits ?bs))) = 4"
      using bits_41_42(1) by (simp add: initial_state_def)
    note p = four_bit_pass[OF n i wf c]
    show ?thesis
      unfolding encode_step_play[OF n p(2) hok] p(1) p(3)
      using path q(1) by (simp add: initial_state_def)
  qed
  have step1: "encode_step e fname file_extension ?bs ?s1 = Inr (False, ?s2)"
  proof -
    have n: "moves_in_current_game ?s1 < MAX_MOVES_PER_GAME" by (simp add: MAX_MOVES_PER_GAME_def)
    have i: "file_bit_index ?s1 + 4 \<le> 8 * length ?bs" by simp
    have wf: "width_four e (chess_board ?s1)" using w(2) by simp
    have c: "int_of_bin (take 4 (drop (file_bit_index ?s1) (file_bits ?bs))) = 1"
      using bits_41_42(2) by simp
    note p = four_bit_pass[OF n i wf c]
    show ?thesis
      unfolding encode_step_play[OF n p(2) hok] p(1) p(3)
      using path q(2) by simp
  qed
  have step2: "encode_step e fname file_extension ?bs ?s2 = Inr (False, ?s3)"
  proof -
    have n: "moves_in_current_game ?s2 < MAX_MOVES_PER_GAME" by (simp add: MAX_MOVES_PER_GAME_def)
    have i: "file_bit_index ?s2 + 4 \<le> 8 * length ?bs" by simp
    have wf: "width_four e (chess_board ?s2)" using w(3) by simp
    have c: "int_of_bin (take 4 (drop (file_bit_index ?s2) (file_bits ?bs))) = 4"
      using bits_41_42(3) by simp
    note p = four_bit_pass[OF n i wf c]
    show ?thesis
      unfolding encode_step_play[OF n p(2) hok] p(1) p(3)
      using path q(3) by simp
  qed
  have step3: "encode_step e fname file_extension ?bs ?s3 = Inr (True, ?r0)"
  proof -
    have n: "moves_in_current_game ?s3 < MAX_MOVES_PER_GAME" by (simp add: MAX_MOVES_PER_GAME_def)
    have i: "file_bit_index ?s3 + 4 \<le> 8 * length ?bs" by simp
    have wf: "width_four e (chess_board ?s3)" using w(4) by simp
    have c: "int_of_bin (take 4 (drop (file_bit_index ?s3) (file_bits ?bs))) = 2"
      using bits_41_42(4) by simp
    note p = four_bit_pass[OF n i wf c]
    show ?thesis
      unfolding encode_step_play[OF n p(2) hok] p(1) p(3)
      using path by (simp add: close_state_def bits_41_42(6))
  qed
  have "encode_loop e fname file_extension ?bs ?s3 = Some (Inr ?r0)"
    by (subst encode_loop.simps) (simp add: step3)
  then have "encode_loop e fname file_extension ?bs ?s2 = Some (Inr ?r0)"
    by (subst encode_loop.simps) (simp add: step2)
  then have "encode_loop e fname file_extension ?bs ?s1 = Some (Inr ?r0)"
    by (subst encode_loop.simps) (simp add: step1)
  then have loop: "encode_loop e fname file_extension ?bs ?s0 = Some (Inr ?r0)"
    by (subst encode_loop.simps) (simp add: step0)
  have ne: "?bs \<noteq> []" by simp
  let ?r = "\<lparr>pgn = [?P], file_name = fname, pending_game = True, game_count = 1, move_counts = [4]\<rparr>"
  have enc: "encode e fname file_extension ?bs = Some (Inr ?r)"
    using encode_result[OF loop ne] by simp
  have sp: "split_ws (join_sp [m0, m1, m2, m3]) = [m0, m1, m2, m3]"
    using toks by (intro split_ws_join_sp) (auto simp: list_all_iff)
  note l0 = four_bit_line[OF w(1) _ path(2)[unfolded path(1)[symmetric]]]
  note l1 = four_bit_line[OF w(2) _ path(4)]
  note l2 = four_bit_line[OF w(3) _ path(6)]
  note l3 = four_bit_line[OF w(4) _ path(8)]
  have valid: "valid_line e (start e) [m0, m1, m2, m3]"
    using l0(1) l1(1) l2(1) l3(1) path by simp
  have lb0: "line_bits e b0 [m0, m1, m2, m3] =
      zfill (bin_str 4) 4 @ zfill (bin_str 1) 4 @ zfill (bin_str 4) 4 @ zfill (bin_str 2) 4"
    using l0(2)[of "[m1, m2, m3]"] l1(2)[of "[m2, m3]"] l2(2)[of "[m3]"] l3(2)[of "[]"] path
    by simp
  have lb: "line_bits e b0 [m0, m1, m2, m3] = file_bits ?bs"
    unfolding lb0 by (rule bits_41_42(5))
  have gb: "games_bits e [join_sp [m0, m1, m2, m3]] = file_bits ?bs"
    unfolding games_bits_def using lb sp path(1)
    by (simp del: join_sp.simps line_bits.simps file_bits_simps)
  have "\<forall>moves \<in> set [join_sp [m0, m1, m2, m3]]. valid_line e (start e) (split_ws moves)"
    using valid sp by simp
  from decode_valid[OF this, of "[]" metadata] obtain ys od where
    d: "decode e [join_sp [m0, m1, m2, m3]] [] metadata =
         ([] @ ys, case metadata of None \<Rightarrow> Inl Decode_Error | Some x \<Rightarrow> Inr x)"
    "file_bits ys @ od = games_bits e [join_sp [m0, m1, m2, m3]]" "length od < 8" by blast
  have "ys = ?bs" using d(2,3) unfolding gb by (rule bytes_of_whole)
  then have f1: "fst (decode e (map (\<lambda>p. join_sp (mainline p)) (pgn ?r)) [] metadata) = ?bs"
    using d(1) by simp
  have f2: "game_count ?r = 1" and f3: "map mainline (pgn ?r) = [[m0, m1, m2, m3]]" by simp_all
  show ?thesis by (rule exI[of _ ?r]) (intro conjI enc f1 f2 f3)
qed

theorem encode_0x41_0x42_witness:
  "list_all (width_four (fixed_engine opening_moves)) [[], [''h2h3''], [''h2h3'', ''g1f3''], [''h2h3'', ''g1f3'', ''h2h3'']] \<and>
   list_all (no_draw (fixed_engine opening_moves)) [[''h2h3''], [''h2h3'', ''g1f3''], [''h2h3'', ''g1f3'', ''h2h3'']] \<and>
   list_all uci_token [''h2h3'', ''g1f3'', ''h2h3'', ''b1c3''] \<and>
   headers_ok ''ab.txt'' ''txt'' \<and>
   (\<exists>r. encode (fixed_engine opening_moves) ''ab.txt'' ''txt'' [0x41, 0x42] = Some (Inr r) \<and> game_count r = 1 \<and>
        map mainline (pgn r) = [[''h2h3'', ''g1f3'', ''h2h3'', ''b1c3'']] \<and>
        fst (decode (fixed_engine opening_moves) (map (\<lambda>p. join_sp (mainline p)) (pgn r)) [] (Some ''txt'')) = [0x41, 0x42])"
proof -
  let ?E = "fixed_engine opening_moves"
  have p: "[] = start ?E" "''h2h3'' = legal_moves ?E [] ! 4" "[''h2h3''] = push ?E [] ''h2h3''"
    "''g1f3'' = legal_moves ?E [''h2h3''] ! 1" "[''h2h3'', ''g1f3''] = push ?E [''h2h3''] ''g1f3''"
    "''h2h3'' = legal_moves ?E [''h2h3'', ''g1f3''] ! 4"
    "[''h2h3'', ''g1f3'', ''h2h3''] = push ?E [''h2h3'', ''g1f3''] ''h2h3''"
    "''b1c3'' = legal_moves ?E [''h2h3'', ''g1f3'', ''h2h3''] ! 2"
    by code_simp+
  have h1: "list_all (width_four ?E) [[], [''h2h3''], [''h2h3'', ''g1f3''], [''h2h3'', ''g1f3'', ''h2h3'']]"
    by code_simp
  have h2: "list_all (no_draw ?E) [[''h2h3''], [''h2h3'', ''g1f3''], [''h2h3'', ''g1f3'', ''h2h3'']]"
    by code_simp
  have h3: "list_all uci_token [''h2h3'', ''g1f3'', ''h2h3'', ''b1c3'']" by code_simp
  from encode_0x41_0x42[OF p h1 h2 h3 plain_names_ok(4), of "Some ''txt''"] h1 h2 h3 plain_names_ok(4)
  show ?thesis by blast
qed

end
